theory Spec2Isabelle
  imports Main "HOL-Library.AList"
begin

section \<open>Data model of src/compiler/builder.ts\<close>

text \<open>
  A \<^verbatim>\<open>Path\<close> is a string. The compiler's \<^verbatim>\<open>Map<T>\<close> is a string-keyed map that
  iterates in insertion order; it is modelled as an association list in insertion order.
  \<^verbatim>\<open>Map<true>\<close> (a set of paths) is a map to \<^typ>\<open>unit\<close>.
\<close>

type_synonym Path = string
type_synonym Diagnostic = string
type_synonym 'v Map = "(Path \<times> 'v) list"

definition has :: "'v Map \<Rightarrow> Path \<Rightarrow> bool" where
  "has m k = (map_of m k \<noteq> None)"

definition get :: "'v Map \<Rightarrow> Path \<Rightarrow> 'v option" where
  "get m k = map_of m k"

definition setEntry :: "'v Map \<Rightarrow> Path \<Rightarrow> 'v \<Rightarrow> 'v Map" where
  "setEntry m k v = AList.update k v m"

definition deleteEntry :: "'v Map \<Rightarrow> Path \<Rightarrow> 'v Map" where
  "deleteEntry m k = AList.delete k m"

text \<open>Modelled from the spec: \<^verbatim>\<open>forEachKey\<close> is in core.ts. It calls the callback on the
  keys in order and returns the first truthy result; every callback of this file returns a
  boolean, so the result is truthy iff some key satisfies it (the spec: "no path in ... has
  an entry in ...").\<close>

definition forEachKey :: "'v Map \<Rightarrow> (Path \<Rightarrow> bool) \<Rightarrow> bool" where
  "forEachKey m f = list_ex f (map fst m)"

text \<open>Modelled from the spec: \<^verbatim>\<open>copyEntries\<close> is in core.ts; the spec says that the old
  \<open>changedFilesSet\<close> is copied into the new state: every entry of the source is set in
  the target.\<close>

definition copyEntries :: "'v Map \<Rightarrow> 'v Map \<Rightarrow> 'v Map" where
  "copyEntries source target = fold (\<lambda>(k, v) t. setEntry t k v) source target"

text \<open>Every throw of the source is a value: a \<^verbatim>\<open>TypeError\<close> is what JavaScript raises
  on a property access of \<^verbatim>\<open>undefined\<close>, \<^verbatim>\<open>AssertionFailure\<close> is a failed
  \<^verbatim>\<open>Debug.assert\<close>, \<^verbatim>\<open>OperationCanceled\<close> is what a tripped cancellation token makes
  the program or the BuilderState layer throw. A call that throws returns the error alone:
  the state that a throw leaves behind is not part of the model, and the theorems are about
  calls that return.\<close>

datatype error = TypeError | AssertionFailure | OperationCanceled

text \<open>Objects compared with \<^verbatim>\<open>===\<close> carry an object identity; two records are the same
  object iff they are equal.\<close>

record SourceFile =
  sourceFileOid :: nat
  path :: Path

record CompilerOptions =
  outFile :: "string option"
  out :: "string option"

record EmitResult =
  emitSkipped :: "bool option"
  diagnostics :: "Diagnostic list"
  emittedFiles :: "string list option"
  sourceMaps :: "string list option"

text \<open>The program is an external collaborator; the record holds what this file calls on
  it. The cancellation token is part of the two functions, which may throw.\<close>

record Program =
  programOid :: nat
  getCompilerOptions :: CompilerOptions
  getSourceFiles :: "SourceFile list"
  programSemanticDiagnostics :: "SourceFile option \<Rightarrow> error + Diagnostic list"
  programEmit :: "SourceFile option \<Rightarrow> error + EmitResult"

record FileInfo =
  version :: string
  signature :: "string option"

type_synonym ReferencedSet = "unit Map"

record BuilderState =
  fileInfos :: "FileInfo Map"
  referencedMap :: "ReferencedSet Map option"

text \<open>\<^verbatim>\<open>interface BuilderProgramState extends BuilderState\<close> (lines 8-42). A field that
  is \<^verbatim>\<open>undefined\<close> is \<open>None\<close>. For \<open>affectedFilesIndex\<close>, \<open>None\<close> stands for both
  \<^verbatim>\<open>undefined\<close> and \<^verbatim>\<open>NaN\<close>, which this file cannot tell apart: every comparison with
  it is false, \<^verbatim>\<open>++\<close> leaves it not a number, and indexing an array with it reads
  \<^verbatim>\<open>undefined\<close>.\<close>

record BuilderProgramState = BuilderState +
  semanticDiagnosticsPerFile :: "Diagnostic list Map option"
  changedFilesSet :: "unit Map"
  affectedFiles :: "SourceFile list option"
  affectedFilesIndex :: "nat option"
  currentChangedFilePath :: "Path option"
  currentAffectedFilesSignatures :: "string Map option"
  seenAffectedFiles :: "unit Map option"
  program :: Program

text \<open>The functions of the \<^verbatim>\<open>BuilderState\<close> namespace (builderState.ts) that this file
  calls and whose code is not part of it are parameters of the model: every theorem holds
  for all of them. They see the state through the \<^verbatim>\<open>BuilderState\<close> interface only.
  \<open>getFilesAffectedBy\<close> takes the map of pending signatures and returns it updated, with
  the affected files; it may throw (cancellation).\<close>

record BuilderStateNS =
  create :: "Program \<Rightarrow> BuilderState option \<Rightarrow> BuilderState"
  canReuseOldState :: "ReferencedSet Map option \<Rightarrow> BuilderState option \<Rightarrow> bool"
  getFilesAffectedBy ::
    "BuilderState \<Rightarrow> Program \<Rightarrow> Path \<Rightarrow> string Map \<Rightarrow> error + (SourceFile list \<times> string Map)"

text \<open>Modelled from the spec: \<^verbatim>\<open>BuilderState.updateSignaturesFromCache\<close> is in
  builderState.ts; the spec says it flushes the pending signatures into \<open>fileInfos\<close>.\<close>

definition updateSignaturesFromCache :: "FileInfo Map \<Rightarrow> string Map \<Rightarrow> FileInfo Map" where
  "updateSignaturesFromCache infos signatureCache =
     fold (\<lambda>(p, sig) fi.
             (case get fi p of
                None \<Rightarrow> fi
              | Some info \<Rightarrow> setEntry fi p (info\<lparr>signature := Some sig\<rparr>)))
          signatureCache infos"

text \<open>JavaScript truthiness of an optional string: \<^verbatim>\<open>undefined\<close> and \<^verbatim>\<open>""\<close> are falsy.\<close>

definition truthy :: "string option \<Rightarrow> bool" where
  "truthy s = (case s of None \<Rightarrow> False | Some t \<Rightarrow> t \<noteq> [])"

text \<open>\<^verbatim>\<open>compilerOptions.outFile || compilerOptions.out\<close> (lines 62, 163, 381).\<close>

definition bundledOutput :: "CompilerOptions \<Rightarrow> bool" where
  "bundledOutput compilerOptions = (truthy (outFile compilerOptions) \<or> truthy (out compilerOptions))"

section \<open>The affected-file iterator\<close>

text \<open>What \<^verbatim>\<open>getNextAffectedFile\<close> yields: a source file, or \<^verbatim>\<open>state.program\<close> itself.
  The program a state yields is always its own \<open>program\<close> field, which is assigned once
  (line 60), so the test \<^verbatim>\<open>affected === state.program\<close> is the test for \<open>WholeProgram\<close>.\<close>

datatype Affected = AffectedFile SourceFile | WholeProgram

text \<open>The inner loop (lines 132-142) from index \<open>i\<close>: the index of the first file that is
  not seen, or \<open>None\<close> when the index runs past the end; with the seen map, on which the
  loop calls \<^verbatim>\<open>set\<close> for every file it skips.\<close>

function nextUnseen :: "SourceFile list \<Rightarrow> unit Map \<Rightarrow> nat \<Rightarrow> nat option \<times> unit Map" where
  "nextUnseen fs seen i =
     (if i < length fs then
        (if \<not> has seen (path (fs ! i)) then (Some i, seen)
         else nextUnseen fs (setEntry seen (path (fs ! i)) ()) (i + 1))
      else (None, seen))"
  by pat_completeness auto
termination
  by (relation "measure (\<lambda>(fs, seen, i). length fs - i)") auto

declare nextUnseen.simps [simp del]

text \<open>Lines 144-150: the batch is exhausted.\<close>

definition completeBatch :: "BuilderProgramState \<Rightarrow> error + BuilderProgramState" where
  "completeBatch state =
     (let state1 = state\<lparr>changedFilesSet :=
                      (case currentChangedFilePath state of
                         None \<Rightarrow> changedFilesSet state
                       | Some p \<Rightarrow> deleteEntry (changedFilesSet state) p),
                    currentChangedFilePath := None\<rparr>
      in case currentAffectedFilesSignatures state1 of
           None \<Rightarrow> Inl TypeError
         | Some sigs \<Rightarrow>
             Inr (state1\<lparr>fileInfos := updateSignaturesFromCache (fileInfos state1) sigs,
                         currentAffectedFilesSignatures := Some [],
                         affectedFiles := None\<rparr>))"

text \<open>Lines 129-151, for a state whose \<open>affectedFiles\<close> is the list \<open>fs\<close>: the file to
  return, or \<open>None\<close> with the state after the batch has been completed.\<close>

definition iterateBatch ::
  "BuilderProgramState \<Rightarrow> SourceFile list \<Rightarrow> error + (SourceFile option \<times> BuilderProgramState)" where
  "iterateBatch state fs =
     (case affectedFilesIndex state of
        None \<Rightarrow> map_sum id (Pair None) (completeBatch state)
      | Some i \<Rightarrow>
          if i < length fs then
            (case seenAffectedFiles state of
               None \<Rightarrow> Inl TypeError
             | Some seen \<Rightarrow>
                 (case nextUnseen fs seen i of
                    (Some j, seen') \<Rightarrow>
                      (case semanticDiagnosticsPerFile state of
                         None \<Rightarrow> Inl TypeError
                       | Some cache \<Rightarrow>
                           Inr (Some (fs ! j),
                                state\<lparr>seenAffectedFiles := Some seen',
                                      affectedFilesIndex := Some j,
                                      semanticDiagnosticsPerFile :=
                                        Some (deleteEntry cache (path (fs ! j)))\<rparr>))
                  | (None, seen') \<Rightarrow>
                      map_sum id (Pair None)
                        (completeBatch (state\<lparr>seenAffectedFiles := Some seen'\<rparr>))))
          else map_sum id (Pair None) (completeBatch state))"

text \<open>Lines 168-174: the next batch, for the changed file \<open>nextKey\<close>.\<close>

definition startBatch ::
  "BuilderStateNS \<Rightarrow> BuilderProgramState \<Rightarrow> Path \<Rightarrow> error + BuilderProgramState" where
  "startBatch ns state nextKey =
     (let sigs = (case currentAffectedFilesSignatures state of None \<Rightarrow> [] | Some m \<Rightarrow> m)
      in case getFilesAffectedBy ns (BuilderState.truncate state) (program state) nextKey sigs of
           Inl e \<Rightarrow> Inl e
         | Inr (files, sigs') \<Rightarrow>
             (case semanticDiagnosticsPerFile state of
                None \<Rightarrow> Inl TypeError
              | Some cache \<Rightarrow>
                  Inr (state\<lparr>currentAffectedFilesSignatures := Some sigs',
                             affectedFiles := Some files,
                             currentChangedFilePath := Some nextKey,
                             semanticDiagnosticsPerFile := Some (deleteEntry cache nextKey),
                             affectedFilesIndex := Some 0,
                             seenAffectedFiles :=
                               Some (case seenAffectedFiles state of None \<Rightarrow> [] | Some m \<Rightarrow> m)\<rparr>)))"

text \<open>One pass through the body of \<^verbatim>\<open>while (true)\<close> (lines 128-174): an error, a return
  (\<open>Inr (Inl _)\<close>: the result and the state), or the state with which the loop goes
  round again (\<open>Inr (Inr _)\<close>).\<close>

definition whileBody ::
  "BuilderStateNS \<Rightarrow> BuilderProgramState \<Rightarrow>
     error + ((Affected option \<times> BuilderProgramState) + BuilderProgramState)" where
  "whileBody ns state =
     (case (case affectedFiles state of
              None \<Rightarrow> Inr (None, state)
            | Some fs \<Rightarrow> iterateBatch state fs) of
        Inl e \<Rightarrow> Inl e
      | Inr (Some affectedFile, state1) \<Rightarrow> Inr (Inl (Some (AffectedFile affectedFile), state1))
      | Inr (None, state1) \<Rightarrow>
          (case changedFilesSet state1 of
             [] \<Rightarrow> Inr (Inl (None, state1))
           | (nextKey, _) # _ \<Rightarrow>
               if bundledOutput (getCompilerOptions (program state1)) then
                 (if semanticDiagnosticsPerFile state1 \<noteq> None then Inl AssertionFailure
                  else Inr (Inl (Some WholeProgram, state1)))
               else map_sum id Inr (startBatch ns state1 nextKey)))"

text \<open>The measure with which the loop terminates: a pass that goes round again has started
  a batch for a path of \<open>changedFilesSet\<close>, and the next pass either returns or completes
  that batch, which removes the path.\<close>

definition inBatch :: "BuilderProgramState \<Rightarrow> bool" where
  "inBatch state =
     (affectedFiles state \<noteq> None \<and>
      (case currentChangedFilePath state of
         None \<Rightarrow> False
       | Some p \<Rightarrow> has (changedFilesSet state) p))"

definition loopMeasure :: "BuilderProgramState \<Rightarrow> nat" where
  "loopMeasure state = 2 * length (changedFilesSet state) + (if inBatch state then 0 else 1)"

lemma map_sum_eq_Inr [simp]:
  "map_sum f g x = Inr y \<longleftrightarrow> (\<exists>z. x = Inr z \<and> y = g z)"
  by (cases x) auto

lemma map_sum_eq_Inl [simp]:
  "map_sum f g x = Inl y \<longleftrightarrow> (\<exists>z. x = Inl z \<and> y = f z)"
  by (cases x) auto

lemma length_deleteEntry_le: "length (deleteEntry m k) \<le> length m"
  by (simp add: deleteEntry_def AList.delete_eq)

lemma length_deleteEntry_less: "has m k \<Longrightarrow> length (deleteEntry m k) < length m"
  unfolding has_def deleteEntry_def AList.delete_eq
  by (induction m) (auto simp: less_Suc_eq_le split: if_splits)

lemma iterateBatch_None_changed:
  assumes "iterateBatch s fs = Inr (None, s1)"
  shows "changedFilesSet s1 =
           (case currentChangedFilePath s of
              None \<Rightarrow> changedFilesSet s
            | Some p \<Rightarrow> deleteEntry (changedFilesSet s) p)"
    and "affectedFiles s1 = None"
  using assms
  by (auto simp: iterateBatch_def completeBatch_def Let_def
           split: option.splits if_splits prod.splits sum.splits)

lemma startBatch_props:
  assumes "startBatch ns s k = Inr s'"
  shows "changedFilesSet s' = changedFilesSet s"
    and "affectedFiles s' \<noteq> None"
    and "currentChangedFilePath s' = Some k"
  using assms
  by (auto simp: startBatch_def Let_def split: option.splits sum.splits prod.splits)

lemma whileBody_continue:
  assumes "whileBody ns s = Inr (Inr s')"
  obtains s1 k u rest where
    "(case affectedFiles s of None \<Rightarrow> Inr (None, s) | Some fs \<Rightarrow> iterateBatch s fs) = Inr (None, s1)"
    "changedFilesSet s1 = (k, u) # rest"
    "\<not> bundledOutput (getCompilerOptions (program s1))"
    "startBatch ns s1 k = Inr s'"
  using assms
  by (auto simp: whileBody_def split: sum.splits option.splits list.splits if_splits prod.splits)

lemma whileBody_measure:
  assumes "whileBody ns s = Inr (Inr s')"
  shows "loopMeasure s' < loopMeasure s"
proof -
  from assms obtain s1 k u rest where
    s1: "(case affectedFiles s of None \<Rightarrow> Inr (None, s) | Some fs \<Rightarrow> iterateBatch s fs) = Inr (None, s1)"
    and ch: "changedFilesSet s1 = (k, u) # rest"
    and sb: "startBatch ns s1 k = Inr s'"
    by (rule whileBody_continue)
  from startBatch_props[OF sb] ch
  have in': "inBatch s'" and len': "length (changedFilesSet s') = length (changedFilesSet s1)"
    by (auto simp: inBatch_def has_def)
  show ?thesis
  proof (cases "affectedFiles s")
    case None
    with s1 have "s1 = s" by simp
    moreover from None have "\<not> inBatch s" by (simp add: inBatch_def)
    ultimately show ?thesis using in' len' by (simp add: loopMeasure_def)
  next
    case (Some fs)
    with s1 have ib: "iterateBatch s fs = Inr (None, s1)" by simp
    note c = iterateBatch_None_changed(1)[OF ib]
    show ?thesis
    proof (cases "inBatch s")
      case True
      then obtain p where p: "currentChangedFilePath s = Some p" "has (changedFilesSet s) p"
        by (auto simp: inBatch_def split: option.splits)
      with c have "length (changedFilesSet s1) < length (changedFilesSet s)"
        by (simp add: length_deleteEntry_less)
      then show ?thesis using in' len' True by (simp add: loopMeasure_def)
    next
      case False
      from c have "length (changedFilesSet s1) \<le> length (changedFilesSet s)"
        by (auto simp: length_deleteEntry_le split: option.splits)
      then show ?thesis using in' len' False by (simp add: loopMeasure_def)
    qed
  qed
qed

text \<open>\<^verbatim>\<open>getNextAffectedFile\<close> (lines 126-176): the body, repeated until it returns.\<close>

function getNextAffectedFile ::
  "BuilderStateNS \<Rightarrow> BuilderProgramState \<Rightarrow> error + (Affected option \<times> BuilderProgramState)" where
  "getNextAffectedFile ns state =
     (case whileBody ns state of
        Inl e \<Rightarrow> Inl e
      | Inr (Inl r) \<Rightarrow> Inr r
      | Inr (Inr state') \<Rightarrow> getNextAffectedFile ns state')"
  by pat_completeness auto
termination
  by (relation "measure (\<lambda>(ns, state). loopMeasure state)") (auto simp: whileBody_measure)

declare getNextAffectedFile.simps [simp del]

text \<open>\<^verbatim>\<open>doneWithAffectedFile\<close> (lines 182-190).\<close>

definition doneWithAffectedFile :: "BuilderProgramState \<Rightarrow> Affected \<Rightarrow> error + BuilderProgramState" where
  "doneWithAffectedFile state affected =
     (case affected of
        WholeProgram \<Rightarrow> Inr (state\<lparr>changedFilesSet := []\<rparr>)
      | AffectedFile f \<Rightarrow>
          (case seenAffectedFiles state of
             None \<Rightarrow> Inl TypeError
           | Some seen \<Rightarrow>
               Inr (state\<lparr>seenAffectedFiles := Some (setEntry seen (path f) ()),
                          affectedFilesIndex := map_option Suc (affectedFilesIndex state)\<rparr>)))"

text \<open>\<^verbatim>\<open>toAffectedFileResult\<close> (lines 195-198).\<close>

definition toAffectedFileResult ::
  "BuilderProgramState \<Rightarrow> 'r \<Rightarrow> Affected \<Rightarrow> error + (('r \<times> Affected) option \<times> BuilderProgramState)" where
  "toAffectedFileResult state result affected =
     map_sum id (Pair (Some (result, affected))) (doneWithAffectedFile state affected)"

section \<open>The cache of semantic diagnostics\<close>

text \<open>\<^verbatim>\<open>getSemanticDiagnosticsOfFile\<close> (lines 204-216); a cached array is truthy, empty or
  not.\<close>

definition getSemanticDiagnosticsOfFile ::
  "BuilderProgramState \<Rightarrow> SourceFile \<Rightarrow> error + (Diagnostic list \<times> BuilderProgramState)" where
  "getSemanticDiagnosticsOfFile state sourceFile =
     (case semanticDiagnosticsPerFile state of
        None \<Rightarrow> Inl TypeError
      | Some cache \<Rightarrow>
          (case get cache (path sourceFile) of
             Some cachedDiagnostics \<Rightarrow> Inr (cachedDiagnostics, state)
           | None \<Rightarrow>
               (case programSemanticDiagnostics (program state) (Some sourceFile) of
                  Inl e \<Rightarrow> Inl e
                | Inr ds \<Rightarrow>
                    Inr (ds, state\<lparr>semanticDiagnosticsPerFile :=
                                      Some (setEntry cache (path sourceFile) ds)\<rparr>))))"

text \<open>\<^verbatim>\<open>state.affectedFiles[state.affectedFilesIndex - 1]\<close>: an array read out of range, or
  at an index that is not a number, is \<^verbatim>\<open>undefined\<close>.\<close>

definition elementBeforeIndex :: "SourceFile list \<Rightarrow> nat option \<Rightarrow> SourceFile option" where
  "elementBeforeIndex fs idx =
     (case idx of
        None \<Rightarrow> None
      | Some i \<Rightarrow> if 0 < i \<and> i - 1 < length fs then Some (fs ! (i - 1)) else None)"

text \<open>\<^verbatim>\<open>assertSourceFileOkWithoutNextAffectedCall\<close> (lines 116-118): \<open>Inr ()\<close> when the
  assertion passes.\<close>

definition assertSourceFileOkWithoutNextAffectedCall ::
  "BuilderProgramState \<Rightarrow> SourceFile option \<Rightarrow> error + unit" where
  "assertSourceFileOkWithoutNextAffectedCall state sourceFile =
     (case sourceFile of
        None \<Rightarrow> Inr ()
      | Some sf \<Rightarrow>
          (case affectedFiles state of
             None \<Rightarrow> Inr ()
           | Some fs \<Rightarrow>
               if elementBeforeIndex fs (affectedFilesIndex state) \<noteq> Some sf then Inr ()
               else (case semanticDiagnosticsPerFile state of
                       None \<Rightarrow> Inl TypeError
                     | Some cache \<Rightarrow>
                         if \<not> has cache (path sf) then Inr () else Inl AssertionFailure)))"

section \<open>The state constructor\<close>

text \<open>\<^verbatim>\<open>hasSameKeys\<close> (lines 44-53).\<close>

definition hasSameKeys :: "'t Map option \<Rightarrow> 'u Map option \<Rightarrow> bool" where
  "hasSameKeys mapA mapB =
     (case mapA of
        None \<Rightarrow> mapB = None
      | Some m1 \<Rightarrow>
          (case mapB of
             None \<Rightarrow> False
           | Some m2 \<Rightarrow> length m1 = length m2 \<and> \<not> forEachKey m1 (\<lambda>key. \<not> has m2 key)))"

text \<open>The condition of lines 89-97 for one entry of the new \<open>fileInfos\<close>. \<open>reused\<close> is the
  old state when it is reused (\<^verbatim>\<open>useOldState\<close>) and \<open>None\<close> otherwise, when the first
  disjunct \<^verbatim>\<open>!useOldState\<close> decides.\<close>

definition fileIsChanged ::
  "BuilderProgramState option \<Rightarrow> BuilderState \<Rightarrow> Path \<Rightarrow> FileInfo \<Rightarrow> bool" where
  "fileIsChanged reused state sourceFilePath info =
     (case reused of
        None \<Rightarrow> True
      | Some oldState \<Rightarrow>
          (case get (fileInfos oldState) sourceFilePath of
             None \<Rightarrow> True
           | Some oldInfo \<Rightarrow>
               let newReferences = Option.bind (referencedMap state) (\<lambda>m. get m sourceFilePath);
                   oldReferences = Option.bind (referencedMap oldState) (\<lambda>m. get m sourceFilePath)
               in version oldInfo \<noteq> version info \<or>
                  \<not> hasSameKeys newReferences oldReferences \<or>
                  (case newReferences of
                     None \<Rightarrow> False
                   | Some refs \<Rightarrow>
                       forEachKey refs
                         (\<lambda>p. \<not> has (fileInfos state) p \<and> has (fileInfos oldState) p))))"

text \<open>The callback of \<^verbatim>\<open>state.fileInfos.forEach\<close> (lines 84-108), on the pair of
  \<open>changedFilesSet\<close> and \<open>semanticDiagnosticsPerFile\<close>.\<close>

definition diffFile ::
  "BuilderProgramState option \<Rightarrow> BuilderState \<Rightarrow> bool \<Rightarrow> Path \<times> FileInfo \<Rightarrow>
     unit Map \<times> Diagnostic list Map option \<Rightarrow> unit Map \<times> Diagnostic list Map option" where
  "diffFile reused state canCopySemanticDiagnostics entry acc =
     (case (entry, acc) of
        ((sourceFilePath, info), (changed, cache)) \<Rightarrow>
          if fileIsChanged reused state sourceFilePath info then
            (setEntry changed sourceFilePath (), cache)
          else if canCopySemanticDiagnostics then
            (case Option.bind reused semanticDiagnosticsPerFile of
               None \<Rightarrow> (changed, cache)
             | Some oldCache \<Rightarrow>
                 (case get oldCache sourceFilePath of
                    None \<Rightarrow> (changed, cache)
                  | Some ds \<Rightarrow> (changed, map_option (\<lambda>c. setEntry c sourceFilePath ds) cache)))
          else (changed, cache))"

text \<open>The two sanity assertions on a reused old state (lines 70-75).\<close>

definition oldStateSane :: "BuilderProgramState \<Rightarrow> bool \<Rightarrow> bool" where
  "oldStateSane oldState canCopySemanticDiagnostics =
     ((truthy (currentChangedFilePath oldState) \<or>
       (affectedFiles oldState = None \<and>
        (case currentAffectedFilesSignatures oldState of None \<Rightarrow> True | Some m \<Rightarrow> length m = 0))) \<and>
      (\<not> canCopySemanticDiagnostics \<or>
       (case semanticDiagnosticsPerFile oldState of
          None \<Rightarrow> True
        | Some oldCache \<Rightarrow> \<not> forEachKey (changedFilesSet oldState) (\<lambda>p. has oldCache p))))"

text \<open>\<^verbatim>\<open>createBuilderProgramState\<close> (lines 58-111). When \<^verbatim>\<open>canReuseOldState\<close> answers
  true for an \<^verbatim>\<open>undefined\<close> old state, line 67 reads a property of \<^verbatim>\<open>undefined\<close>.\<close>

definition createBuilderProgramState ::
  "BuilderStateNS \<Rightarrow> Program \<Rightarrow> BuilderProgramState option \<Rightarrow> error + BuilderProgramState" where
  "createBuilderProgramState ns newProgram oldState =
     (let state = create ns newProgram (map_option BuilderState.truncate oldState);
          cache0 = (if \<not> bundledOutput (getCompilerOptions newProgram) then Some [] else None);
          useOldState =
            canReuseOldState ns (referencedMap state) (map_option BuilderState.truncate oldState)
      in if useOldState \<and> oldState = None then Inl TypeError
         else
           let reused = (if useOldState then oldState else None);
               canCopySemanticDiagnostics =
                 (Option.bind reused semanticDiagnosticsPerFile \<noteq> None \<and> cache0 \<noteq> None)
           in if (case reused of
                    None \<Rightarrow> False
                  | Some old \<Rightarrow> \<not> oldStateSane old canCopySemanticDiagnostics)
              then Inl AssertionFailure
              else
                let changed0 =
                      (case reused of None \<Rightarrow> [] | Some old \<Rightarrow> copyEntries (changedFilesSet old) []);
                    result = fold (diffFile reused state canCopySemanticDiagnostics)
                               (fileInfos state) (changed0, cache0)
                in Inr \<lparr>fileInfos = fileInfos state,
                        referencedMap = referencedMap state,
                        semanticDiagnosticsPerFile = snd result,
                        changedFilesSet = fst result,
                        affectedFiles = None,
                        affectedFilesIndex = None,
                        currentChangedFilePath = None,
                        currentAffectedFilesSignatures = None,
                        seenAffectedFiles = None,
                        program = newProgram\<rparr>)"

section \<open>Facts about the iterator\<close>

lemma has_setEntry [simp]: "has (setEntry m k v) k' \<longleftrightarrow> k' = k \<or> has m k'"
  by (simp add: has_def setEntry_def update_conv')

lemma has_deleteEntry [simp]: "has (deleteEntry m k) k' \<longleftrightarrow> k' \<noteq> k \<and> has m k'"
  by (simp add: has_def deleteEntry_def delete_conv')

lemma has_Nil [simp]: "\<not> has [] k"
  by (simp add: has_def)

lemma has_iff_keys: "has m k \<longleftrightarrow> k \<in> fst ` set m"
  by (simp add: has_def map_of_eq_None_iff)

lemma setEntry_unit_has: "has m k \<Longrightarrow> setEntry m k () = (m :: unit Map)"
  unfolding has_def setEntry_def
  by (induction m) (auto split: if_splits)

lemma deleteEntry_absent: "\<not> has m k \<Longrightarrow> deleteEntry m k = m"
  unfolding has_iff_keys deleteEntry_def AList.delete_eq
  by (induction m) auto

lemma nextUnseen_seen: "snd (nextUnseen fs seen i) = seen"
proof (induction fs seen i rule: nextUnseen.induct)
  case (1 fs seen i)
  show ?case
    using 1 by (subst nextUnseen.simps) (auto simp: setEntry_unit_has)
qed

lemma nextUnseen_Some:
  "nextUnseen fs seen i = (Some j, seen') \<Longrightarrow>
     i \<le> j \<and> j < length fs \<and> \<not> has seen (path (fs ! j)) \<and> seen' = seen"
proof (induction fs seen i rule: nextUnseen.induct)
  case (1 fs seen i)
  show ?case
  proof (cases "i < length fs \<and> has seen (path (fs ! i))")
    case True
    then have eq: "setEntry seen (path (fs ! i)) () = seen"
      by (simp add: setEntry_unit_has)
    from True "1.prems" have "nextUnseen fs seen (i + 1) = (Some j, seen')"
      by (subst (asm) nextUnseen.simps) (simp add: eq)
    with "1.IH" True eq show ?thesis by fastforce
  next
    case False
    with "1.prems" show ?thesis
      by (subst (asm) nextUnseen.simps) (auto split: if_splits)
  qed
qed

lemma nextUnseen_here:
  "i < length fs \<Longrightarrow> \<not> has seen (path (fs ! i)) \<Longrightarrow> nextUnseen fs seen i = (Some i, seen)"
  by (subst nextUnseen.simps) simp

lemma getNextAffectedFile_return:
  "whileBody ns s = Inr (Inl r) \<Longrightarrow> getNextAffectedFile ns s = Inr r"
  by (subst getNextAffectedFile.simps) simp

lemma getNextAffectedFile_again:
  "whileBody ns s = Inr (Inr s') \<Longrightarrow> getNextAffectedFile ns s = getNextAffectedFile ns s'"
  by (subst getNextAffectedFile.simps) simp

lemma getNextAffectedFile_error:
  "whileBody ns s = Inl e \<Longrightarrow> getNextAffectedFile ns s = Inl e"
  by (subst getNextAffectedFile.simps) simp

lemma getNextAffectedFile_result_induct [consumes 1, case_names return again]:
  assumes "getNextAffectedFile ns s = Inr r"
    and "\<And>s. whileBody ns s = Inr (Inl r) \<Longrightarrow> P s"
    and "\<And>s s'. whileBody ns s = Inr (Inr s') \<Longrightarrow> getNextAffectedFile ns s' = Inr r \<Longrightarrow> P s' \<Longrightarrow> P s"
  shows "P s"
proof -
  have "getNextAffectedFile n s = Inr r \<Longrightarrow> n = ns \<Longrightarrow> P s" for n
  proof (induction n s rule: getNextAffectedFile.induct)
    case (1 n state)
    from "1.prems" consider
      (a) "whileBody ns state = Inr (Inl r)"
      | (b) s' where "whileBody ns state = Inr (Inr s')" "getNextAffectedFile ns s' = Inr r"
      by (subst (asm) getNextAffectedFile.simps) (auto split: sum.splits)
    then show ?case
    proof cases
      case a
      then show ?thesis by (rule assms(2))
    next
      case b
      from "1.prems"(2) b have "P s'"
        by (intro "1.IH"[of "Inr s'" s']) auto
      with b show ?thesis by (intro assms(3)[of state s'])
    qed
  qed
  with assms(1) show ?thesis by blast
qed

lemma iterateBatch_Some:
  assumes "iterateBatch s fs = Inr (Some f, s1)"
  shows "\<exists>i j seen cache.
           affectedFilesIndex s = Some i \<and> i \<le> j \<and> j < length fs \<and>
           seenAffectedFiles s = Some seen \<and> \<not> has seen (path (fs ! j)) \<and>
           semanticDiagnosticsPerFile s = Some cache \<and> f = fs ! j \<and>
           s1 = s\<lparr>affectedFilesIndex := Some j,
                  semanticDiagnosticsPerFile := Some (deleteEntry cache (path (fs ! j)))\<rparr>"
proof -
  from assms obtain i seen where i: "affectedFilesIndex s = Some i" "i < length fs"
    and seen: "seenAffectedFiles s = Some seen"
    by (auto simp: iterateBatch_def split: option.splits if_splits)
  obtain r seen' where nu: "nextUnseen fs seen i = (r, seen')" by (cases "nextUnseen fs seen i")
  with assms i seen obtain j cache where j: "r = Some j"
    and cache: "semanticDiagnosticsPerFile s = Some cache"
    and res: "f = fs ! j"
      "s1 = s\<lparr>seenAffectedFiles := Some seen', affectedFilesIndex := Some j,
               semanticDiagnosticsPerFile := Some (deleteEntry cache (path (fs ! j)))\<rparr>"
    by (auto simp: iterateBatch_def split: option.splits)
  from nextUnseen_Some[OF nu[unfolded j]]
  have p: "i \<le> j" "j < length fs" "\<not> has seen (path (fs ! j))" "seen' = seen" by auto
  from seen have "s\<lparr>seenAffectedFiles := Some seen\<rparr> = s" by (cases s) simp
  with res(2) p(4)
  have "s1 = s\<lparr>affectedFilesIndex := Some j,
                 semanticDiagnosticsPerFile := Some (deleteEntry cache (path (fs ! j)))\<rparr>"
    by simp
  with i seen cache p res(1) show ?thesis by blast
qed

lemma whileBody_file:
  "whileBody ns s = Inr (Inl (Some (AffectedFile f), s1)) \<longleftrightarrow>
     (\<exists>fs. affectedFiles s = Some fs \<and> iterateBatch s fs = Inr (Some f, s1))"
  by (auto simp: whileBody_def split: sum.splits option.splits list.splits if_splits prod.splits)

text \<open>The state in which \<open>f\<close> has been yielded and not committed.\<close>

definition yieldedState :: "BuilderProgramState \<Rightarrow> SourceFile \<Rightarrow> bool" where
  "yieldedState s f =
     (\<exists>fs j seen cache.
        affectedFiles s = Some fs \<and> affectedFilesIndex s = Some j \<and> j < length fs \<and> fs ! j = f \<and>
        seenAffectedFiles s = Some seen \<and> \<not> has seen (path f) \<and>
        semanticDiagnosticsPerFile s = Some cache \<and> \<not> has cache (path f))"

lemma getNextAffectedFile_yieldedState:
  assumes "getNextAffectedFile ns s = Inr (Some (AffectedFile f), s1)"
  shows "yieldedState s1 f"
  using assms
proof (induction rule: getNextAffectedFile_result_induct)
  case (return s)
  then obtain fs where "affectedFiles s = Some fs" "iterateBatch s fs = Inr (Some f, s1)"
    by (auto simp: whileBody_file)
  with iterateBatch_Some[OF this(2)] show ?case
    by (auto simp: yieldedState_def)
next
  case (again s s')
  then show ?case by simp
qed

lemma yieldedState_reyield:
  assumes "yieldedState s f"
  shows "getNextAffectedFile ns s = Inr (Some (AffectedFile f), s)"
proof -
  from assms obtain fs j seen cache where p:
    "affectedFiles s = Some fs" "affectedFilesIndex s = Some j" "j < length fs" "fs ! j = f"
    "seenAffectedFiles s = Some seen" "\<not> has seen (path f)"
    "semanticDiagnosticsPerFile s = Some cache" "\<not> has cache (path f)"
    by (auto simp: yieldedState_def)
  have same: "s\<lparr>seenAffectedFiles := Some seen, affectedFilesIndex := Some j,
                semanticDiagnosticsPerFile := Some cache\<rparr> = s"
    using p by (cases s) simp
  from p have "iterateBatch s fs = Inr (Some f, s)"
    by (simp add: iterateBatch_def nextUnseen_here deleteEntry_absent same)
  with p(1) have "whileBody ns s = Inr (Inl (Some (AffectedFile f), s))"
    by (simp add: whileBody_file)
  then show ?thesis by (rule getNextAffectedFile_return)
qed

text \<open>The files of the batch in progress that are still ahead of the cursor.\<close>

definition remaining :: "BuilderProgramState \<Rightarrow> nat" where
  "remaining state =
     (case affectedFiles state of
        None \<Rightarrow> 0
      | Some fs \<Rightarrow> (case affectedFilesIndex state of None \<Rightarrow> 0 | Some i \<Rightarrow> length fs - i))"

lemma loopMeasure_cong:
  "changedFilesSet t = changedFilesSet s \<Longrightarrow> affectedFiles t = affectedFiles s \<Longrightarrow>
   currentChangedFilePath t = currentChangedFilePath s \<Longrightarrow> loopMeasure t = loopMeasure s"
  by (simp add: loopMeasure_def inBatch_def split: option.splits)

lemma iterateBatch_None_measure:
  assumes "affectedFiles s = Some fs" "iterateBatch s fs = Inr (None, s1)"
  shows "loopMeasure s1 \<le> loopMeasure s"
proof -
  note c = iterateBatch_None_changed[OF assms(2)]
  from c(2) have nb: "\<not> inBatch s1" by (simp add: inBatch_def)
  show ?thesis
  proof (cases "inBatch s")
    case True
    then obtain p where "currentChangedFilePath s = Some p" "has (changedFilesSet s) p"
      by (auto simp: inBatch_def split: option.splits)
    with c(1) have "length (changedFilesSet s1) < length (changedFilesSet s)"
      by (simp add: length_deleteEntry_less)
    with nb True show ?thesis by (simp add: loopMeasure_def)
  next
    case False
    from c(1) have "length (changedFilesSet s1) \<le> length (changedFilesSet s)"
      by (auto simp: length_deleteEntry_le split: option.splits)
    with nb False show ?thesis by (simp add: loopMeasure_def)
  qed
qed

lemma whileBody_return_cases:
  assumes "whileBody ns s = Inr (Inl (r, s1))"
  obtains (yields) fs f where "r = Some (AffectedFile f)" "affectedFiles s = Some fs"
      "iterateBatch s fs = Inr (Some f, s1)"
    | (idle) "affectedFiles s = None" "s1 = s" "r = None \<or> r = Some WholeProgram"
    | (drained) fs where "affectedFiles s = Some fs" "iterateBatch s fs = Inr (None, s1)"
      "r = None \<or> r = Some WholeProgram"
  using assms
  by (auto simp: whileBody_def split: sum.splits option.splits list.splits if_splits prod.splits)

lemma whileBody_return_measure:
  assumes "whileBody ns s = Inr (Inl (r, s1))"
  shows "loopMeasure s1 \<le> loopMeasure s"
  using assms
proof (cases rule: whileBody_return_cases)
  case (yields fs f)
  from iterateBatch_Some[OF yields(3)] have "loopMeasure s1 = loopMeasure s"
    by (auto intro!: loopMeasure_cong)
  then show ?thesis by simp
next
  case idle
  then show ?thesis by simp
next
  case (drained fs)
  then show ?thesis by (simp add: iterateBatch_None_measure)
qed

lemma getNextAffectedFile_measure:
  assumes "getNextAffectedFile ns s = Inr (r, s1)"
  shows "loopMeasure s1 \<le> loopMeasure s"
  using assms
proof (induction rule: getNextAffectedFile_result_induct)
  case (return s)
  then show ?case by (rule whileBody_return_measure)
next
  case (again s s')
  with whileBody_measure[OF again(1)] show ?case by simp
qed

lemma getNextAffectedFile_file_progress:
  assumes "getNextAffectedFile ns s = Inr (Some (AffectedFile f), s1)"
  shows "loopMeasure s1 < loopMeasure s \<or> (loopMeasure s1 = loopMeasure s \<and> remaining s1 \<le> remaining s)"
  using assms
proof (induction rule: getNextAffectedFile_result_induct)
  case (return s)
  then obtain fs where fs: "affectedFiles s = Some fs" "iterateBatch s fs = Inr (Some f, s1)"
    by (auto simp: whileBody_file)
  from iterateBatch_Some[OF fs(2)] fs(1)
  have "loopMeasure s1 = loopMeasure s \<and> remaining s1 \<le> remaining s"
    by (auto intro!: loopMeasure_cong simp: remaining_def)
  then show ?case by simp
next
  case (again s s')
  from getNextAffectedFile_measure[OF again(2)] whileBody_measure[OF again(1)]
  show ?case by simp
qed

lemma getNextAffectedFile_WholeProgram:
  assumes "getNextAffectedFile ns s = Inr (Some WholeProgram, s1)"
  shows "affectedFiles s1 = None \<and> changedFilesSet s1 \<noteq> [] \<and>
         bundledOutput (getCompilerOptions (program s1)) \<and> semanticDiagnosticsPerFile s1 = None"
  using assms
proof (induction rule: getNextAffectedFile_result_induct)
  case (return s)
  then show ?case
    by (auto simp: whileBody_def iterateBatch_None_changed
        split: sum.splits option.splits list.splits if_splits prod.splits)
next
  case (again s s')
  then show ?case by simp
qed

lemma next_done_decreases:
  assumes "getNextAffectedFile ns s = Inr (Some a, s1)" "doneWithAffectedFile s1 a = Inr s2"
  shows "(s2, s) \<in> measures [loopMeasure, remaining]"
proof (cases a)
  case (AffectedFile f)
  from assms(1) AffectedFile have y: "yieldedState s1 f"
    by (simp add: getNextAffectedFile_yieldedState)
  from assms(2) AffectedFile y have "loopMeasure s2 = loopMeasure s1" "remaining s2 < remaining s1"
    by (auto simp: doneWithAffectedFile_def yieldedState_def remaining_def intro!: loopMeasure_cong)
  with getNextAffectedFile_file_progress[OF assms(1)[unfolded AffectedFile]]
  show ?thesis by auto
next
  case WholeProgram
  from getNextAffectedFile_WholeProgram[OF assms(1)[unfolded WholeProgram]]
  have "affectedFiles s1 = None" "changedFilesSet s1 \<noteq> []" by auto
  with assms(2) WholeProgram have "loopMeasure s2 < loopMeasure s1"
    by (cases "changedFilesSet s1") (auto simp: doneWithAffectedFile_def loopMeasure_def inBatch_def)
  with getNextAffectedFile_measure[OF assms(1)] show ?thesis by auto
qed

section \<open>The builder facade\<close>

datatype BuilderProgramKind = SemanticDiagnosticsBuilderProgram | EmitAndSemanticDiagnosticsBuilderProgram

text \<open>The loop of lines 394-397: every affected item is taken and committed.\<close>

function drainAffected :: "BuilderStateNS \<Rightarrow> BuilderProgramState \<Rightarrow> error + BuilderProgramState" where
  "drainAffected ns state =
     (case getNextAffectedFile ns state of
        Inl e \<Rightarrow> Inl e
      | Inr (None, state1) \<Rightarrow> Inr state1
      | Inr (Some affected, state1) \<Rightarrow>
          (case doneWithAffectedFile state1 affected of
             Inl e \<Rightarrow> Inl e
           | Inr state2 \<Rightarrow> drainAffected ns state2))"
  by pat_completeness auto
termination
  by (relation "inv_image (measures [loopMeasure, remaining]) snd")
     (auto simp del: in_measures intro: next_done_decreases)

declare drainAffected.simps [simp del]

text \<open>\<^verbatim>\<open>getSemanticDiagnosticsOfNextAffectedFile\<close> (lines 339-368). The arguments of
  \<^verbatim>\<open>toAffectedFileResult\<close> are evaluated before it commits.\<close>

function getSemanticDiagnosticsOfNextAffectedFile ::
  "BuilderStateNS \<Rightarrow> BuilderProgramState \<Rightarrow> (SourceFile \<Rightarrow> bool) option \<Rightarrow>
     error + ((Diagnostic list \<times> Affected) option \<times> BuilderProgramState)" where
  "getSemanticDiagnosticsOfNextAffectedFile ns state ignoreSourceFile =
     (case getNextAffectedFile ns state of
        Inl e \<Rightarrow> Inl e
      | Inr (None, state1) \<Rightarrow> Inr (None, state1)
      | Inr (Some WholeProgram, state1) \<Rightarrow>
          (case programSemanticDiagnostics (program state1) None of
             Inl e \<Rightarrow> Inl e
           | Inr ds \<Rightarrow> toAffectedFileResult state1 ds WholeProgram)
      | Inr (Some (AffectedFile f), state1) \<Rightarrow>
          if (case ignoreSourceFile of None \<Rightarrow> False | Some ignore \<Rightarrow> ignore f) then
            (case doneWithAffectedFile state1 (AffectedFile f) of
               Inl e \<Rightarrow> Inl e
             | Inr state2 \<Rightarrow> getSemanticDiagnosticsOfNextAffectedFile ns state2 ignoreSourceFile)
          else
            (case getSemanticDiagnosticsOfFile state1 f of
               Inl e \<Rightarrow> Inl e
             | Inr (ds, state2) \<Rightarrow> toAffectedFileResult state2 ds (AffectedFile f)))"
  by pat_completeness auto
termination
  by (relation "inv_image (measures [loopMeasure, remaining]) (\<lambda>(ns, state, ignore). state)")
     (auto simp del: in_measures intro: next_done_decreases)

declare getSemanticDiagnosticsOfNextAffectedFile.simps [simp del]

text \<open>\<^verbatim>\<open>emitNextAffectedFile\<close> (lines 280-294); the writer callback, the token and the
  transformers are part of \<open>programEmit\<close>.\<close>

definition emitNextAffectedFile ::
  "BuilderStateNS \<Rightarrow> BuilderProgramState \<Rightarrow>
     error + ((EmitResult \<times> Affected) option \<times> BuilderProgramState)" where
  "emitNextAffectedFile ns state =
     (case getNextAffectedFile ns state of
        Inl e \<Rightarrow> Inl e
      | Inr (None, state1) \<Rightarrow> Inr (None, state1)
      | Inr (Some affected, state1) \<Rightarrow>
          (case programEmit (program state1)
                  (case affected of WholeProgram \<Rightarrow> None | AffectedFile f \<Rightarrow> Some f) of
             Inl e \<Rightarrow> Inl e
           | Inr result \<Rightarrow> toAffectedFileResult state1 result affected))"

text \<open>Modelled from the spec: \<^verbatim>\<open>addRange\<close> is in core.ts; the spec says that the results
  are merged, and an \<^verbatim>\<open>undefined\<close> array adds nothing.\<close>

definition addRange :: "'a list \<Rightarrow> 'a list option \<Rightarrow> 'a list" where
  "addRange to from = (case from of None \<Rightarrow> to | Some xs \<Rightarrow> to @ xs)"

text \<open>One round of the loop of lines 318-323 on the four accumulators.\<close>

definition mergeEmitResult :: "EmitResult \<Rightarrow> EmitResult \<Rightarrow> EmitResult" where
  "mergeEmitResult acc result =
     \<lparr>emitSkipped = (if emitSkipped acc = Some True then Some True else emitSkipped result),
      diagnostics = addRange (diagnostics acc) (Some (diagnostics result)),
      emittedFiles = Some (addRange (case emittedFiles acc of None \<Rightarrow> [] | Some xs \<Rightarrow> xs)
                             (emittedFiles result)),
      sourceMaps = Some (addRange (case sourceMaps acc of None \<Rightarrow> [] | Some xs \<Rightarrow> xs)
                           (sourceMaps result))\<rparr>"

lemma emitNextAffectedFile_decreases:
  assumes "emitNextAffectedFile ns s = Inr (Some r, s2)"
  shows "(s2, s) \<in> measures [loopMeasure, remaining]"
proof -
  from assms obtain a s1 where "getNextAffectedFile ns s = Inr (Some a, s1)"
    "doneWithAffectedFile s1 a = Inr s2"
    by (auto simp: emitNextAffectedFile_def toAffectedFileResult_def
        split: sum.splits option.splits prod.splits)
  then show ?thesis by (rule next_done_decreases)
qed

function emitAffectedFiles ::
  "BuilderStateNS \<Rightarrow> BuilderProgramState \<Rightarrow> EmitResult \<Rightarrow> error + (EmitResult \<times> BuilderProgramState)" where
  "emitAffectedFiles ns state acc =
     (case emitNextAffectedFile ns state of
        Inl e \<Rightarrow> Inl e
      | Inr (None, state1) \<Rightarrow> Inr (acc, state1)
      | Inr (Some (result, affected), state1) \<Rightarrow>
          emitAffectedFiles ns state1 (mergeEmitResult acc result))"
  by pat_completeness auto
termination
  by (relation "inv_image (measures [loopMeasure, remaining]) (\<lambda>(ns, state, acc). state)")
     (auto simp del: in_measures intro: emitNextAffectedFile_decreases)

declare emitAffectedFiles.simps [simp del]

text \<open>\<^verbatim>\<open>emit\<close> (lines 307-333).\<close>

definition emit ::
  "BuilderProgramKind \<Rightarrow> BuilderStateNS \<Rightarrow> BuilderProgramState \<Rightarrow> SourceFile option \<Rightarrow>
     error + (EmitResult \<times> BuilderProgramState)" where
  "emit kind ns state targetSourceFile =
     (if kind = EmitAndSemanticDiagnosticsBuilderProgram then
        (case assertSourceFileOkWithoutNextAffectedCall state targetSourceFile of
           Inl e \<Rightarrow> Inl e
         | Inr _ \<Rightarrow>
             (case targetSourceFile of
                None \<Rightarrow>
                  emitAffectedFiles ns state
                    \<lparr>emitSkipped = None, diagnostics = [], emittedFiles = Some [], sourceMaps = Some []\<rparr>
              | Some _ \<Rightarrow>
                  map_sum id (\<lambda>r. (r, state)) (programEmit (program state) targetSourceFile)))
      else map_sum id (\<lambda>r. (r, state)) (programEmit (program state) targetSourceFile))"

text \<open>The loop of lines 400-403 over the source files of the program.\<close>

fun diagnosticsOfFiles ::
  "BuilderProgramState \<Rightarrow> SourceFile list \<Rightarrow> Diagnostic list \<Rightarrow>
     error + (Diagnostic list \<times> BuilderProgramState)" where
  "diagnosticsOfFiles state [] acc = Inr (acc, state)"
| "diagnosticsOfFiles state (sourceFile # rest) acc =
     (case getSemanticDiagnosticsOfFile state sourceFile of
        Inl e \<Rightarrow> Inl e
      | Inr (ds, state1) \<Rightarrow> diagnosticsOfFiles state1 rest (addRange acc (Some ds)))"

text \<open>\<^verbatim>\<open>getSemanticDiagnostics\<close> (lines 378-405).\<close>

definition getSemanticDiagnostics ::
  "BuilderProgramKind \<Rightarrow> BuilderStateNS \<Rightarrow> BuilderProgramState \<Rightarrow> SourceFile option \<Rightarrow>
     error + (Diagnostic list \<times> BuilderProgramState)" where
  "getSemanticDiagnostics kind ns state sourceFile =
     (case assertSourceFileOkWithoutNextAffectedCall state sourceFile of
        Inl e \<Rightarrow> Inl e
      | Inr _ \<Rightarrow>
          if bundledOutput (getCompilerOptions (program state)) then
            (if semanticDiagnosticsPerFile state \<noteq> None then Inl AssertionFailure
             else map_sum id (\<lambda>ds. (ds, state)) (programSemanticDiagnostics (program state) sourceFile))
          else
            (case sourceFile of
               Some sf \<Rightarrow> getSemanticDiagnosticsOfFile state sf
             | None \<Rightarrow>
                 (case (if kind = SemanticDiagnosticsBuilderProgram then drainAffected ns state
                        else Inr state) of
                    Inl e \<Rightarrow> Inl e
                  | Inr state1 \<Rightarrow>
                      diagnosticsOfFiles state1 (getSourceFiles (program state1)) [])))"

text \<open>The builder program that \<^verbatim>\<open>createBuilderProgram\<close> returns is an object of closures
  over its state, its kind and the host; the record holds the three.\<close>

record BuilderProgramHost =
  useCaseSensitiveFileNames :: bool

record BaseBuilderProgram =
  getState :: BuilderProgramState
  builderKind :: BuilderProgramKind
  builderHost :: BuilderProgramHost

text \<open>\<^verbatim>\<open>createBuilderProgram\<close> (lines 225-273). The canonical file name function and the
  hash function made from the host are arguments of the BuilderState functions, which are
  the parameters \<open>ns\<close> here.\<close>

definition createBuilderProgram ::
  "BuilderStateNS \<Rightarrow> Program \<Rightarrow> BuilderProgramHost \<Rightarrow> BaseBuilderProgram option \<Rightarrow>
     BuilderProgramKind \<Rightarrow> error + BaseBuilderProgram" where
  "createBuilderProgram ns newProgram host oldProgram kind =
     (let oldState = map_option getState oldProgram
      in case (case oldState of
                 None \<Rightarrow> None
               | Some st \<Rightarrow> if newProgram = program st then oldProgram else None) of
           Some same \<Rightarrow> Inr same
         | None \<Rightarrow>
             map_sum id (\<lambda>state. \<lparr>getState = state, builderKind = kind, builderHost = host\<rparr>)
               (createBuilderProgramState ns newProgram oldState))"

section \<open>Notions of the specification\<close>

text \<open>No signature is pending outside a batch.\<close>

definition noPendingSignatures :: "BuilderProgramState \<Rightarrow> bool" where
  "noPendingSignatures state =
     (case currentAffectedFilesSignatures state of None \<Rightarrow> True | Some m \<Rightarrow> m = [])"

text \<open>The cursor of the batch in progress has passed the end of \<open>affectedFiles\<close>: the inner
  loop of lines 132-142 finds no file that is not seen, and lines 144-150 run.\<close>

definition batchExhausted :: "BuilderProgramState \<Rightarrow> bool" where
  "batchExhausted state =
     (case affectedFiles state of
        None \<Rightarrow> False
      | Some fs \<Rightarrow>
          (case affectedFilesIndex state of
             None \<Rightarrow> True
           | Some i \<Rightarrow>
               (case seenAffectedFiles state of
                  None \<Rightarrow> length fs \<le> i
                | Some seen \<Rightarrow> list_all (\<lambda>f. has seen (path f)) (drop i fs))))"

text \<open>A call of \<open>getNextAffectedFile\<close> on the state completes a batch in one of the passes
  of its loop.\<close>

inductive completesBatch :: "BuilderStateNS \<Rightarrow> BuilderProgramState \<Rightarrow> bool" for ns where
  here: "batchExhausted s \<Longrightarrow> completesBatch ns s"
| later: "whileBody ns s = Inr (Inr s') \<Longrightarrow> completesBatch ns s' \<Longrightarrow> completesBatch ns s"

text \<open>The paths of the files of the batch in progress.\<close>

definition batchPaths :: "BuilderProgramState \<Rightarrow> Path set" where
  "batchPaths state = (case affectedFiles state of None \<Rightarrow> {} | Some fs \<Rightarrow> path ` set fs)"

text \<open>
  The states of a builder: a state that \<open>createBuilderProgramState\<close> has returned (the keys
  of a \<^verbatim>\<open>Map\<close> are distinct, which the association list of \<open>fileInfos\<close> must say), and
  every state that follows by a call of \<open>getNextAffectedFile\<close>, by \<open>doneWithAffectedFile\<close> on
  the item that was yielded last and is not committed, and, when \<open>facade\<close> is set, by a
  cache fill of \<open>getSemanticDiagnosticsOfFile\<close>, through which every operation of the
  facade writes the cache. A cancelled operation of the facade leaves the state of the
  \<open>getNextAffectedFile\<close> call it made. Two values that the code does not store are kept with
  the state: the item yielded and not committed, and the paths of the files of all batches
  so far.
\<close>

inductive reachable ::
  "BuilderStateNS \<Rightarrow> bool \<Rightarrow> BuilderProgramState \<Rightarrow> Affected option \<Rightarrow> Path set \<Rightarrow> bool"
  for ns facade where
  created:
    "createBuilderProgramState ns newProgram oldState = Inr s \<Longrightarrow>
     distinct (map fst (fileInfos s)) \<Longrightarrow> reachable ns facade s None {}"
| next_affected:
    "reachable ns facade s y H \<Longrightarrow> getNextAffectedFile ns s = Inr (r, s') \<Longrightarrow>
     reachable ns facade s' r (H \<union> batchPaths s')"
| done_with:
    "reachable ns facade s (Some a) H \<Longrightarrow> doneWithAffectedFile s a = Inr s' \<Longrightarrow>
     reachable ns facade s' None H"
| diagnostics:
    "facade \<Longrightarrow> reachable ns facade s y H \<Longrightarrow>
     getSemanticDiagnosticsOfFile s f = Inr (ds, s') \<Longrightarrow> reachable ns facade s' y H"

text \<open>
  The states of a builder that is used as the comments of lines 202 and 373-374 assume.
  They are the states of \<open>reachable\<close>, but for the cache fill: the file given to
  \<open>getSemanticDiagnosticsOfFile\<close> "has been taken out of affected files/changed file set",
  which is read here as: its path is not in \<open>changedFilesSet\<close>, and it is not the file that is
  yielded and not committed. \<open>getSemanticDiagnosticsOfNextAffectedFile\<close> fills the cache for
  the file it yields and commits the file in the same call; a call of it is a step unless
  it returns a file whose path is in \<open>changedFilesSet\<close>. The item yielded and not committed
  is kept with the state.
\<close>

inductive reachableAsAssumed ::
  "BuilderStateNS \<Rightarrow> BuilderProgramState \<Rightarrow> Affected option \<Rightarrow> bool"
  for ns where
  created:
    "createBuilderProgramState ns newProgram oldState = Inr s \<Longrightarrow>
     distinct (map fst (fileInfos s)) \<Longrightarrow> reachableAsAssumed ns s None"
| next_affected:
    "reachableAsAssumed ns s y \<Longrightarrow> getNextAffectedFile ns s = Inr (r, s') \<Longrightarrow>
     reachableAsAssumed ns s' r"
| done_with:
    "reachableAsAssumed ns s (Some a) \<Longrightarrow> doneWithAffectedFile s a = Inr s' \<Longrightarrow>
     reachableAsAssumed ns s' None"
| diagnostics:
    "reachableAsAssumed ns s y \<Longrightarrow> map_of (changedFilesSet s) (path f) = None \<Longrightarrow>
     (case y of Some (AffectedFile g) \<Rightarrow> path g \<noteq> path f | _ \<Rightarrow> True) \<Longrightarrow>
     getSemanticDiagnosticsOfFile s f = Inr (ds, s') \<Longrightarrow> reachableAsAssumed ns s' y"
| diagnostics_of_next:
    "reachableAsAssumed ns s y \<Longrightarrow>
     getSemanticDiagnosticsOfNextAffectedFile ns s ignoreSourceFile = Inr (r, s') \<Longrightarrow>
     (case r of Some (ds, AffectedFile f) \<Rightarrow> map_of (changedFilesSet s') (path f) = None
      | _ \<Rightarrow> True) \<Longrightarrow>
     reachableAsAssumed ns s' None"

text \<open>A state of bundled output has no batch and no cache.\<close>

definition bundledIdle :: "BuilderProgramState \<Rightarrow> bool" where
  "bundledIdle state = (affectedFiles state = None \<and> semanticDiagnosticsPerFile state = None)"

text \<open>The path has an entry in \<open>semanticDiagnosticsPerFile\<close>.\<close>

definition cachedPath :: "BuilderProgramState \<Rightarrow> Path \<Rightarrow> bool" where
  "cachedPath state p =
     (case semanticDiagnosticsPerFile state of None \<Rightarrow> False | Some cache \<Rightarrow> has cache p)"

text \<open>The paths recorded in \<open>seenAffectedFiles\<close>.\<close>

definition seenPaths :: "BuilderProgramState \<Rightarrow> Path set" where
  "seenPaths state = (case seenAffectedFiles state of None \<Rightarrow> {} | Some seen \<Rightarrow> fst ` set seen)"

section \<open>The variant of the iterator that writes the cursor back\<close>

text \<open>
  The spec's open question: the source writes the local cursor to \<open>affectedFilesIndex\<close> only
  when it has found a file that is not seen. The definitions of this section follow the
  spec's words for the other form, in which the inner loop works on the cursor of the state
  (or writes the local cursor back when it ends); they are the same as the source's in
  everything else.
\<close>

text \<open>The inner loop with the cursor it ends at: whether a file that is not seen was found,
  the cursor, the seen map.\<close>

function advanceCursor :: "SourceFile list \<Rightarrow> unit Map \<Rightarrow> nat \<Rightarrow> bool \<times> nat \<times> unit Map" where
  "advanceCursor fs seen i =
     (if i < length fs then
        (if \<not> has seen (path (fs ! i)) then (True, i, seen)
         else advanceCursor fs (setEntry seen (path (fs ! i)) ()) (i + 1))
      else (False, i, seen))"
  by pat_completeness auto
termination
  by (relation "measure (\<lambda>(fs, seen, i). length fs - i)") auto

declare advanceCursor.simps [simp del]

definition iterateBatchWritingBack ::
  "BuilderProgramState \<Rightarrow> SourceFile list \<Rightarrow> error + (SourceFile option \<times> BuilderProgramState)" where
  "iterateBatchWritingBack state fs =
     (case affectedFilesIndex state of
        None \<Rightarrow> map_sum id (Pair None) (completeBatch state)
      | Some i \<Rightarrow>
          if i < length fs then
            (case seenAffectedFiles state of
               None \<Rightarrow> Inl TypeError
             | Some seen \<Rightarrow>
                 (case advanceCursor fs seen i of
                    (True, j, seen') \<Rightarrow>
                      (case semanticDiagnosticsPerFile state of
                         None \<Rightarrow> Inl TypeError
                       | Some cache \<Rightarrow>
                           Inr (Some (fs ! j),
                                state\<lparr>seenAffectedFiles := Some seen',
                                      affectedFilesIndex := Some j,
                                      semanticDiagnosticsPerFile :=
                                        Some (deleteEntry cache (path (fs ! j)))\<rparr>))
                  | (False, j, seen') \<Rightarrow>
                      map_sum id (Pair None)
                        (completeBatch (state\<lparr>seenAffectedFiles := Some seen',
                                              affectedFilesIndex := Some j\<rparr>))))
          else map_sum id (Pair None) (completeBatch state))"

definition whileBodyWritingBack ::
  "BuilderStateNS \<Rightarrow> BuilderProgramState \<Rightarrow>
     error + ((Affected option \<times> BuilderProgramState) + BuilderProgramState)" where
  "whileBodyWritingBack ns state =
     (case (case affectedFiles state of
              None \<Rightarrow> Inr (None, state)
            | Some fs \<Rightarrow> iterateBatchWritingBack state fs) of
        Inl e \<Rightarrow> Inl e
      | Inr (Some affectedFile, state1) \<Rightarrow> Inr (Inl (Some (AffectedFile affectedFile), state1))
      | Inr (None, state1) \<Rightarrow>
          (case changedFilesSet state1 of
             [] \<Rightarrow> Inr (Inl (None, state1))
           | (nextKey, _) # _ \<Rightarrow>
               if bundledOutput (getCompilerOptions (program state1)) then
                 (if semanticDiagnosticsPerFile state1 \<noteq> None then Inl AssertionFailure
                  else Inr (Inl (Some WholeProgram, state1)))
               else map_sum id Inr (startBatch ns state1 nextKey)))"

text \<open>What an observer of two states can compare: everything, but for the cursor of a state
  that has no batch, which no operation reads before \<open>startBatch\<close> sets it to 0.\<close>

definition sameObservableState :: "BuilderProgramState \<Rightarrow> BuilderProgramState \<Rightarrow> bool" where
  "sameObservableState s t =
     (t = s \<or> (affectedFiles s = None \<and> t = s\<lparr>affectedFilesIndex := affectedFilesIndex t\<rparr>))"

text \<open>The same result of one pass, or of a call: the same error, or the same value with the
  same observable state.\<close>

definition sameResult ::
  "error + ('a \<times> BuilderProgramState) \<Rightarrow> error + ('a \<times> BuilderProgramState) \<Rightarrow> bool" where
  "sameResult x y =
     (case (x, y) of
        (Inl e, Inl e') \<Rightarrow> e = e'
      | (Inr (r, s), Inr (r', t)) \<Rightarrow> r = r' \<and> sameObservableState s t
      | _ \<Rightarrow> False)"

definition samePass ::
  "error + ((Affected option \<times> BuilderProgramState) + BuilderProgramState) \<Rightarrow>
   error + ((Affected option \<times> BuilderProgramState) + BuilderProgramState) \<Rightarrow> bool" where
  "samePass x y =
     (case (x, y) of
        (Inl e, Inl e') \<Rightarrow> e = e'
      | (Inr (Inl (r, s)), Inr (Inl (r', t))) \<Rightarrow> r = r' \<and> sameObservableState s t
      | (Inr (Inr s), Inr (Inr t)) \<Rightarrow> s = t
      | _ \<Rightarrow> False)"

lemma sameObservableState_refl [simp]: "sameObservableState s s"
  by (simp add: sameObservableState_def)

lemma advanceCursor_nextUnseen:
  "advanceCursor fs seen i =
     (case nextUnseen fs seen i of
        (Some j, seen') \<Rightarrow> (True, j, seen')
      | (None, seen') \<Rightarrow> (False, max i (length fs), seen'))"
proof (induction fs seen i rule: nextUnseen.induct)
  case (1 fs seen i)
  show ?case
  proof (cases "i < length fs \<and> has seen (path (fs ! i))")
    case True
    with "1.IH" have "advanceCursor fs (setEntry seen (path (fs ! i)) ()) (i + 1) =
       (case nextUnseen fs (setEntry seen (path (fs ! i)) ()) (i + 1) of
          (Some j, seen') \<Rightarrow> (True, j, seen')
        | (None, seen') \<Rightarrow> (False, max (i + 1) (length fs), seen'))"
      by simp
    with True show ?thesis
      by (subst advanceCursor.simps, subst nextUnseen.simps)
        (auto simp: max_def split: prod.splits option.splits)
  next
    case False
    then show ?thesis
      by (subst advanceCursor.simps, subst nextUnseen.simps) auto
  qed
qed

lemma completeBatch_cursor:
  "completeBatch (s\<lparr>affectedFilesIndex := c\<rparr>) =
     map_sum id (\<lambda>t. t\<lparr>affectedFilesIndex := c\<rparr>) (completeBatch s)"
  by (simp add: completeBatch_def Let_def split: option.splits)

lemma completeBatch_affectedFiles: "completeBatch s = Inr t \<Longrightarrow> affectedFiles t = None"
  by (auto simp: completeBatch_def Let_def split: option.splits)

lemma iterateBatchWritingBack_same:
  "sameResult (iterateBatch s fs) (iterateBatchWritingBack s fs)"
proof (cases "\<exists>i seen. affectedFilesIndex s = Some i \<and> i < length fs \<and> seenAffectedFiles s = Some seen")
  case True
  then obtain i seen where i: "affectedFilesIndex s = Some i" "i < length fs"
    "seenAffectedFiles s = Some seen" by blast
  obtain r seen' where nu: "nextUnseen fs seen i = (r, seen')" by (cases "nextUnseen fs seen i")
  show ?thesis
  proof (cases r)
    case (Some j)
    with i nu show ?thesis
      by (simp add: iterateBatch_def iterateBatchWritingBack_def advanceCursor_nextUnseen
          sameResult_def split: option.splits)
  next
    case None
    define s1 where "s1 = s\<lparr>seenAffectedFiles := Some seen'\<rparr>"
    have wb: "iterateBatchWritingBack s fs =
        map_sum id (Pair None) (completeBatch (s1\<lparr>affectedFilesIndex := Some (max i (length fs))\<rparr>))"
      using i nu None
      by (simp add: iterateBatchWritingBack_def advanceCursor_nextUnseen s1_def)
    have ib: "iterateBatch s fs = map_sum id (Pair None) (completeBatch s1)"
      using i nu None by (simp add: iterateBatch_def s1_def)
    show ?thesis
    proof (cases "completeBatch s1")
      case (Inl e)
      then show ?thesis by (simp add: wb ib completeBatch_cursor sameResult_def)
    next
      case (Inr t)
      with completeBatch_affectedFiles[OF Inr] show ?thesis
        by (simp add: wb ib completeBatch_cursor sameResult_def sameObservableState_def)
    qed
  qed
next
  case False
  then have "iterateBatchWritingBack s fs = iterateBatch s fs"
    by (auto simp: iterateBatch_def iterateBatchWritingBack_def split: option.splits)
  then show ?thesis
    by (cases "iterateBatch s fs") (auto simp: sameResult_def)
qed

lemma startBatch_sameObservableState:
  assumes "sameObservableState s t"
  shows "startBatch ns t k = startBatch ns s k"
proof -
  from assms consider "t = s" | c where "t = s\<lparr>affectedFilesIndex := c\<rparr>"
    by (auto simp: sameObservableState_def)
  then show ?thesis
  proof cases
    case 1
    then show ?thesis by simp
  next
    case 2
    then show ?thesis
      by (simp add: startBatch_def Let_def BuilderState.truncate_def
          split: sum.splits option.splits prod.splits)
  qed
qed

lemma sameObservableState_cursor:
  assumes "sameObservableState s t"
  obtains c where "t = s\<lparr>affectedFilesIndex := c\<rparr>"
    "affectedFiles s = None \<or> c = affectedFilesIndex s"
proof (cases "t = s")
  case True
  then have "t = s\<lparr>affectedFilesIndex := affectedFilesIndex s\<rparr>" by simp
  then show ?thesis by (rule that) simp
next
  case False
  with assms have "affectedFiles s = None" "t = s\<lparr>affectedFilesIndex := affectedFilesIndex t\<rparr>"
    by (auto simp: sameObservableState_def)
  then show ?thesis by (intro that[of "affectedFilesIndex t"]) auto
qed

lemma sameObservableState_cursorI:
  "affectedFiles s = None \<Longrightarrow> sameObservableState s (s\<lparr>affectedFilesIndex := c\<rparr>)"
  by (simp add: sameObservableState_def)

lemma samePass_refl [simp]: "samePass x x"
  by (auto simp: samePass_def split: sum.splits)

lemma after_batch_same:
  assumes "sameObservableState s t"
  shows "samePass
    (case changedFilesSet s of
       [] \<Rightarrow> Inr (Inl (None, s))
     | (nextKey, _) # _ \<Rightarrow>
         if bundledOutput (getCompilerOptions (program s)) then
           (if semanticDiagnosticsPerFile s \<noteq> None then Inl AssertionFailure
            else Inr (Inl (Some WholeProgram, s)))
         else map_sum id Inr (startBatch ns s nextKey))
    (case changedFilesSet t of
       [] \<Rightarrow> Inr (Inl (None, t))
     | (nextKey, _) # _ \<Rightarrow>
         if bundledOutput (getCompilerOptions (program t)) then
           (if semanticDiagnosticsPerFile t \<noteq> None then Inl AssertionFailure
            else Inr (Inl (Some WholeProgram, t)))
         else map_sum id Inr (startBatch ns t nextKey))"
proof -
  from assms obtain c where t: "t = s\<lparr>affectedFilesIndex := c\<rparr>"
    by (rule sameObservableState_cursor)
  have sb: "startBatch ns t k = startBatch ns s k" for k
    using assms by (rule startBatch_sameObservableState)
  show ?thesis
  proof (cases "changedFilesSet s")
    case Nil
    with assms t show ?thesis by (simp add: samePass_def)
  next
    case (Cons e rest)
    obtain k u where e: "e = (k, u)" by (cases e)
    show ?thesis
    proof (cases "bundledOutput (getCompilerOptions (program s))")
      case True
      with Cons e assms show ?thesis
        by (simp add: samePass_def t[symmetric]) (simp add: t)
    next
      case False
      with Cons e sb[of k] show ?thesis
        by (simp add: t[symmetric]) (simp add: t)
    qed
  qed
qed

lemma whileBodyWritingBack_same:
  assumes "sameObservableState s t"
  shows "samePass (whileBody ns s) (whileBodyWritingBack ns t)"
proof (cases "affectedFiles s")
  case None
  from assms obtain c where t: "t = s\<lparr>affectedFilesIndex := c\<rparr>"
    by (rule sameObservableState_cursor)
  with None have "affectedFiles t = None" by simp
  with None after_batch_same[OF assms, of ns] show ?thesis
    by (simp add: whileBody_def whileBodyWritingBack_def)
next
  case (Some fs)
  with assms have ts: "t = s" by (auto simp: sameObservableState_def)
  note ib = iterateBatchWritingBack_same[of s fs]
  show ?thesis
  proof (cases "iterateBatch s fs")
    case (Inl e)
    with ib Some show ?thesis
      by (auto simp: whileBody_def whileBodyWritingBack_def ts sameResult_def samePass_def
          split: sum.splits)
  next
    case (Inr rs)
    obtain r s1 where rs: "rs = (r, s1)" by (cases rs)
    with ib Inr obtain t1 where wb: "iterateBatchWritingBack s fs = Inr (r, t1)"
      and o: "sameObservableState s1 t1"
      by (auto simp: sameResult_def split: sum.splits)
    show ?thesis
    proof (cases r)
      case None
      with after_batch_same[OF o, of ns] Some Inr rs wb show ?thesis
        by (simp add: whileBody_def whileBodyWritingBack_def ts)
    next
      case (Some f)
      with o \<open>affectedFiles s = Some fs\<close> Inr rs wb show ?thesis
        by (simp add: whileBody_def whileBodyWritingBack_def ts samePass_def)
    qed
  qed
qed

lemma whileBodyWritingBack_measure:
  assumes "whileBodyWritingBack ns s = Inr (Inr s')"
  shows "loopMeasure s' < loopMeasure s"
proof -
  from whileBodyWritingBack_same[OF sameObservableState_refl, of ns s] assms
  have "whileBody ns s = Inr (Inr s')"
    by (auto simp: samePass_def split: sum.splits)
  then show ?thesis by (rule whileBody_measure)
qed

text \<open>\<open>getNextAffectedFile\<close> in the form that writes the cursor back.\<close>

function getNextAffectedFileWritingBack ::
  "BuilderStateNS \<Rightarrow> BuilderProgramState \<Rightarrow> error + (Affected option \<times> BuilderProgramState)" where
  "getNextAffectedFileWritingBack ns state =
     (case whileBodyWritingBack ns state of
        Inl e \<Rightarrow> Inl e
      | Inr (Inl r) \<Rightarrow> Inr r
      | Inr (Inr state') \<Rightarrow> getNextAffectedFileWritingBack ns state')"
  by pat_completeness auto
termination
  by (relation "measure (\<lambda>(ns, state). loopMeasure state)")
     (auto simp: whileBodyWritingBack_measure)

declare getNextAffectedFileWritingBack.simps [simp del]

section \<open>An example program and example states\<close>

definition exFileA :: SourceFile where
  "exFileA = \<lparr>sourceFileOid = 1, path = ''a''\<rparr>"

definition exFileB :: SourceFile where
  "exFileB = \<lparr>sourceFileOid = 2, path = ''b''\<rparr>"

definition exProgram :: Program where
  "exProgram =
     \<lparr>programOid = 0,
      getCompilerOptions = \<lparr>outFile = None, out = None\<rparr>,
      getSourceFiles = [exFileA, exFileB],
      programSemanticDiagnostics = (\<lambda>sf. Inr [''error'']),
      programEmit = (\<lambda>sf. Inr \<lparr>emitSkipped = Some False, diagnostics = [],
                                  emittedFiles = None, sourceMaps = None\<rparr>)\<rparr>"

definition exNS :: BuilderStateNS where
  "exNS =
     \<lparr>create = (\<lambda>p old.
         \<lparr>fileInfos = map (\<lambda>f. (path f, \<lparr>version = ''1'', signature = None\<rparr>)) (getSourceFiles p),
          referencedMap = None\<rparr>),
      canReuseOldState = (\<lambda>rm old.
         case old of None \<Rightarrow> False | Some st \<Rightarrow> (referencedMap st = None) = (rm = None)),
      getFilesAffectedBy = (\<lambda>st p k sigs.
         Inr (if k = ''a'' then [exFileA, exFileB] else filter (\<lambda>f. path f = k) (getSourceFiles p),
              setEntry sigs k ''s''))\<rparr>"

definition exIdle :: BuilderProgramState where
  "exIdle =
     \<lparr>fileInfos = [(''a'', \<lparr>version = ''1'', signature = None\<rparr>),
                   (''b'', \<lparr>version = ''1'', signature = None\<rparr>)],
      referencedMap = None,
      semanticDiagnosticsPerFile = Some [],
      changedFilesSet = [(''a'', ()), (''b'', ())],
      affectedFiles = None,
      affectedFilesIndex = None,
      currentChangedFilePath = None,
      currentAffectedFilesSignatures = None,
      seenAffectedFiles = None,
      program = exProgram\<rparr>"

definition exYielded :: BuilderProgramState where
  "exYielded =
     exIdle\<lparr>affectedFiles := Some [exFileA, exFileB],
            affectedFilesIndex := Some 0,
            currentChangedFilePath := Some ''a'',
            currentAffectedFilesSignatures := Some [(''a'', ''s'')],
            seenAffectedFiles := Some []\<rparr>"

definition exCached :: BuilderProgramState where
  "exCached = exYielded\<lparr>semanticDiagnosticsPerFile := Some [(''b'', [''old'']), (''a'', [''stale''])]\<rparr>"

definition exEvicted :: BuilderProgramState where
  "exEvicted = exYielded\<lparr>semanticDiagnosticsPerFile := Some [(''b'', [''old''])]\<rparr>"

definition exDrained :: BuilderProgramState where
  "exDrained =
     \<lparr>fileInfos = [(''a'', \<lparr>version = ''1'', signature = Some ''s''\<rparr>),
                   (''b'', \<lparr>version = ''1'', signature = Some ''s''\<rparr>)],
      referencedMap = None,
      semanticDiagnosticsPerFile = Some [],
      changedFilesSet = [],
      affectedFiles = None,
      affectedFilesIndex = Some 0,
      currentChangedFilePath = None,
      currentAffectedFilesSignatures = Some [],
      seenAffectedFiles = Some [(''a'', ()), (''b'', ())],
      program = exProgram\<rparr>"

definition exInconsistent :: BuilderProgramState where
  "exInconsistent = exIdle\<lparr>affectedFiles := Some [exFileB]\<rparr>"

definition exOldBuilder :: BaseBuilderProgram where
  "exOldBuilder =
     \<lparr>getState = exInconsistent,
      builderKind = SemanticDiagnosticsBuilderProgram,
      builderHost = \<lparr>useCaseSensitiveFileNames = True\<rparr>\<rparr>"

definition exCommitted :: BuilderProgramState where
  "exCommitted =
     exYielded\<lparr>semanticDiagnosticsPerFile := Some [(''a'', [''error''])],
               affectedFilesIndex := Some 1,
               seenAffectedFiles := Some [(''a'', ())]\<rparr>"

definition exBothDone :: BuilderProgramState where
  "exBothDone =
     exYielded\<lparr>affectedFilesIndex := Some 2, seenAffectedFiles := Some [(''a'', ()), (''b'', ())]\<rparr>"

definition exBundledProgram :: Program where
  "exBundledProgram = exProgram\<lparr>programOid := 1,
     getCompilerOptions := \<lparr>outFile = Some ''out.js'', out = None\<rparr>\<rparr>"

definition exBundled :: BuilderProgramState where
  "exBundled = exIdle\<lparr>semanticDiagnosticsPerFile := None, program := exBundledProgram\<rparr>"

definition exOld :: BuilderProgramState where
  "exOld =
     \<lparr>fileInfos = [(''a'', \<lparr>version = ''0'', signature = Some ''s''\<rparr>),
                   (''b'', \<lparr>version = ''1'', signature = Some ''s''\<rparr>)],
      referencedMap = None,
      semanticDiagnosticsPerFile = Some [(''a'', [''old'']), (''b'', [''old''])],
      changedFilesSet = [],
      affectedFiles = None,
      affectedFilesIndex = None,
      currentChangedFilePath = None,
      currentAffectedFilesSignatures = None,
      seenAffectedFiles = None,
      program = exProgram\<lparr>programOid := 7\<rparr>\<rparr>"

definition exFresh :: BuilderProgramState where
  "exFresh = exIdle\<lparr>semanticDiagnosticsPerFile := Some [(''b'', [''old''])],
                    changedFilesSet := [(''a'', ())]\<rparr>"

definition exFreshYielded :: BuilderProgramState where
  "exFreshYielded =
     exFresh\<lparr>affectedFiles := Some [exFileA, exFileB],
             affectedFilesIndex := Some 0,
             currentChangedFilePath := Some ''a'',
             currentAffectedFilesSignatures := Some [(''a'', ''s'')],
             seenAffectedFiles := Some []\<rparr>"

definition exStale :: BuilderProgramState where
  "exStale = exIdle\<lparr>semanticDiagnosticsPerFile := Some [(''a'', [''error''])]\<rparr>"

definition exNS1 :: BuilderStateNS where
  "exNS1 = exNS\<lparr>getFilesAffectedBy := (\<lambda>st p k sigs.
     Inr (filter (\<lambda>f. path f = k) (getSourceFiles p), setEntry sigs k ''s''))\<rparr>"

definition exFirstBatch :: BuilderProgramState where
  "exFirstBatch =
     exIdle\<lparr>affectedFiles := Some [exFileA],
            affectedFilesIndex := Some 0,
            currentChangedFilePath := Some ''a'',
            currentAffectedFilesSignatures := Some [(''a'', ''s'')],
            seenAffectedFiles := Some []\<rparr>"

definition exSecondBatch :: BuilderProgramState where
  "exSecondBatch =
     \<lparr>fileInfos = [(''a'', \<lparr>version = ''1'', signature = Some ''s''\<rparr>),
                   (''b'', \<lparr>version = ''1'', signature = None\<rparr>)],
      referencedMap = None,
      semanticDiagnosticsPerFile = Some [],
      changedFilesSet = [(''b'', ())],
      affectedFiles = Some [exFileB],
      affectedFilesIndex = Some 0,
      currentChangedFilePath = Some ''b'',
      currentAffectedFilesSignatures = Some [(''b'', ''s'')],
      seenAffectedFiles = Some [(''a'', ())],
      program = exProgram\<rparr>"

definition exRefsNS :: BuilderStateNS where
  "exRefsNS = exNS\<lparr>create := (\<lambda>p old.
     \<lparr>fileInfos = map (\<lambda>f. (path f, \<lparr>version = ''1'', signature = None\<rparr>)) (getSourceFiles p),
      referencedMap = Some [(''a'', [])]\<rparr>)\<rparr>"

definition exRefsOld :: BuilderProgramState where
  "exRefsOld = exIdle\<lparr>referencedMap := Some [(''a'', [(''b'', ())]), (''b'', [])],
                      changedFilesSet := []\<rparr>"

definition exRefsNew :: BuilderProgramState where
  "exRefsNew = exIdle\<lparr>referencedMap := Some [(''a'', [])]\<rparr>"

definition exOldEmpty :: BuilderProgramState where
  "exOldEmpty = exOld\<lparr>semanticDiagnosticsPerFile := Some []\<rparr>"

definition exFreshEmpty :: BuilderProgramState where
  "exFreshEmpty = exFresh\<lparr>semanticDiagnosticsPerFile := Some []\<rparr>"

definition exFilled :: BuilderProgramState where
  "exFilled = exFresh\<lparr>semanticDiagnosticsPerFile := Some [(''b'', [''error''])]\<rparr>"

definition exFilledYielded :: BuilderProgramState where
  "exFilledYielded = exFreshYielded\<lparr>semanticDiagnosticsPerFile := Some [(''b'', [''error''])]\<rparr>"

definition exFilledAll :: BuilderProgramState where
  "exFilledAll =
     \<lparr>fileInfos = [(''a'', \<lparr>version = ''1'', signature = Some ''s''\<rparr>),
                   (''b'', \<lparr>version = ''1'', signature = None\<rparr>)],
      referencedMap = None,
      semanticDiagnosticsPerFile = Some [(''a'', [''error'']), (''b'', [''error''])],
      changedFilesSet = [],
      affectedFiles = None,
      affectedFilesIndex = Some 2,
      currentChangedFilePath = None,
      currentAffectedFilesSignatures = Some [],
      seenAffectedFiles = Some [(''a'', ()), (''b'', ())],
      program = exProgram\<rparr>"

definition exFilledCommitted :: BuilderProgramState where
  "exFilledCommitted =
     exFilledYielded\<lparr>affectedFilesIndex := Some 1, seenAffectedFiles := Some [(''a'', ())]\<rparr>"

definition exFilledBoth :: BuilderProgramState where
  "exFilledBoth =
     exFilledYielded\<lparr>affectedFilesIndex := Some 2,
                     seenAffectedFiles := Some [(''a'', ()), (''b'', ())]\<rparr>"

definition exFreshCommitted :: BuilderProgramState where
  "exFreshCommitted =
     exFreshYielded\<lparr>affectedFilesIndex := Some 1, seenAffectedFiles := Some [(''a'', ())]\<rparr>"

definition exFreshSecond :: BuilderProgramState where
  "exFreshSecond = exFreshCommitted\<lparr>semanticDiagnosticsPerFile := Some []\<rparr>"

definition exFreshStale :: BuilderProgramState where
  "exFreshStale = exFreshSecond\<lparr>semanticDiagnosticsPerFile := Some [(''b'', [''error''])]\<rparr>"

section \<open>The claims\<close>

lemma ex_create: "createBuilderProgramState exNS exProgram None = Inr exIdle"
  by (simp add: createBuilderProgramState_def exNS_def exProgram_def exIdle_def Let_def
      bundledOutput_def truthy_def diffFile_def fileIsChanged_def setEntry_def exFileA_def exFileB_def)

lemma ex_next: "getNextAffectedFile exNS exIdle = Inr (Some (AffectedFile exFileA), exYielded)"
  by (simp add: getNextAffectedFile.simps whileBody_def exIdle_def exYielded_def exNS_def exProgram_def bundledOutput_def truthy_def
       startBatch_def BuilderState.truncate_def deleteEntry_def setEntry_def iterateBatch_def nextUnseen.simps has_def
       exFileA_def exFileB_def)

lemma cursor_on_unseen:
  assumes "affectedFiles s = Some fs" "affectedFilesIndex s = Some i" "i < length fs"
    "seenAffectedFiles s = Some seen" "\<not> has seen (path (fs ! i))"
  shows "getNextAffectedFile ns s =
           (case semanticDiagnosticsPerFile s of
              None \<Rightarrow> Inl TypeError
            | Some cache \<Rightarrow>
                Inr (Some (AffectedFile (fs ! i)),
                     s\<lparr>semanticDiagnosticsPerFile := Some (deleteEntry cache (path (fs ! i)))\<rparr>))"
proof (cases "semanticDiagnosticsPerFile s")
  case None
  with assms have "whileBody ns s = Inl TypeError"
    by (simp add: whileBody_def iterateBatch_def nextUnseen_here)
  with None show ?thesis by (simp add: getNextAffectedFile_error)
next
  case (Some cache)
  have same: "s\<lparr>seenAffectedFiles := Some seen, affectedFilesIndex := Some i,
                semanticDiagnosticsPerFile := Some c\<rparr> = s\<lparr>semanticDiagnosticsPerFile := Some c\<rparr>" for c
    using assms by (cases s) simp
  from assms Some have "whileBody ns s =
      Inr (Inl (Some (AffectedFile (fs ! i)),
                s\<lparr>semanticDiagnosticsPerFile := Some (deleteEntry cache (path (fs ! i)))\<rparr>))"
    by (simp add: whileBody_def iterateBatch_def nextUnseen_here same)
  with Some show ?thesis by (simp add: getNextAffectedFile_return)
qed

lemma get_deleteEntry: "get (deleteEntry m k) p = (if p = k then None else get m p)"
  by (simp add: get_def deleteEntry_def delete_conv')

lemma batch_phase_entries:
  assumes "(case affectedFiles s of None \<Rightarrow> Inr (None, s) | Some fs \<Rightarrow> iterateBatch s fs) = Inr (r, s1)"
    and "semanticDiagnosticsPerFile s1 = Some c1" "get c1 p = Some ds"
  shows "\<exists>c0. semanticDiagnosticsPerFile s = Some c0 \<and> get c0 p = Some ds"
proof (cases "affectedFiles s")
  case None
  with assms show ?thesis by simp
next
  case (Some fs)
  with assms(1) have ib: "iterateBatch s fs = Inr (r, s1)" by simp
  show ?thesis
  proof (cases r)
    case None
    with ib have "iterateBatch s fs = Inr (None, s1)" by simp
    then have "semanticDiagnosticsPerFile s1 = semanticDiagnosticsPerFile s"
      by (auto simp: iterateBatch_def completeBatch_def Let_def
          split: option.splits if_splits prod.splits sum.splits)
    with assms(2,3) show ?thesis by simp
  next
    case (Some f)
    from iterateBatch_Some[OF ib[unfolded Some]] assms(2,3) show ?thesis
      by (auto simp: get_deleteEntry split: if_splits)
  qed
qed

lemma startBatch_entries:
  assumes "startBatch ns s k = Inr s'" "semanticDiagnosticsPerFile s' = Some c1" "get c1 p = Some ds"
  shows "\<exists>c0. semanticDiagnosticsPerFile s = Some c0 \<and> get c0 p = Some ds"
  using assms
  by (auto simp: startBatch_def Let_def get_deleteEntry
      split: sum.splits option.splits prod.splits if_splits)

lemma whileBody_entries:
  assumes "whileBody ns s = Inr x"
    and "semanticDiagnosticsPerFile (case x of Inl (r, t) \<Rightarrow> t | Inr t \<Rightarrow> t) = Some c1"
    and "get c1 p = Some ds"
  shows "\<exists>c0. semanticDiagnosticsPerFile s = Some c0 \<and> get c0 p = Some ds"
proof (cases x)
  case (Inl rt)
  obtain r t where rt: "rt = (r, t)" by (cases rt)
  from assms(1)[unfolded Inl rt] obtain r' where
    "(case affectedFiles s of None \<Rightarrow> Inr (None, s) | Some fs \<Rightarrow> iterateBatch s fs) = Inr (r', t)"
    by (auto simp: whileBody_def split: sum.splits option.splits list.splits if_splits prod.splits)
  from batch_phase_entries[OF this _ assms(3)] assms(2) show ?thesis by (simp add: Inl rt)
next
  case (Inr t)
  from assms(1)[unfolded Inr] obtain s1 k u rest where
    s1: "(case affectedFiles s of None \<Rightarrow> Inr (None, s) | Some fs \<Rightarrow> iterateBatch s fs) = Inr (None, s1)"
    and sb: "startBatch ns s1 k = Inr t"
    by (rule whileBody_continue)
  from assms(2) have "semanticDiagnosticsPerFile t = Some c1" by (simp add: Inr)
  from startBatch_entries[OF sb this assms(3)] obtain cm where
    "semanticDiagnosticsPerFile s1 = Some cm" "get cm p = Some ds" by blast
  from batch_phase_entries[OF s1 this] show ?thesis .
qed

lemma getNextAffectedFile_entries:
  assumes "getNextAffectedFile ns s = Inr (r, s')"
  shows "\<forall>c1. semanticDiagnosticsPerFile s' = Some c1 \<and> get c1 p = Some ds \<longrightarrow>
           (\<exists>c0. semanticDiagnosticsPerFile s = Some c0 \<and> get c0 p = Some ds)"
  using assms
proof (induction rule: getNextAffectedFile_result_induct)
  case (return s)
  from whileBody_entries[OF return, of _ p ds] show ?case by simp
next
  case (again s t)
  show ?case
  proof (intro allI impI)
    fix c1
    assume "semanticDiagnosticsPerFile s' = Some c1 \<and> get c1 p = Some ds"
    with again(3) obtain cm where "semanticDiagnosticsPerFile t = Some cm" "get cm p = Some ds"
      by blast
    with whileBody_entries[OF again(1), of cm p ds]
    show "\<exists>c0. semanticDiagnosticsPerFile s = Some c0 \<and> get c0 p = Some ds" by simp
  qed
qed

lemma batch_phase_None_keeps:
  assumes "(case affectedFiles s of None \<Rightarrow> Inr (None, s) | Some fs \<Rightarrow> iterateBatch s fs) = Inr (None, s1)"
  shows "semanticDiagnosticsPerFile s1 = semanticDiagnosticsPerFile s"
    and "has (changedFilesSet s1) p \<Longrightarrow> has (changedFilesSet s) p"
proof -
  show "semanticDiagnosticsPerFile s1 = semanticDiagnosticsPerFile s"
    using assms
    by (auto simp: iterateBatch_def completeBatch_def Let_def
        split: option.splits if_splits prod.splits sum.splits)
  show "has (changedFilesSet s) p" if "has (changedFilesSet s1) p"
  proof (cases "affectedFiles s")
    case None
    with assms that show ?thesis by simp
  next
    case (Some fs)
    with assms have "iterateBatch s fs = Inr (None, s1)" by simp
    from iterateBatch_None_changed(1)[OF this] that show ?thesis
      by (auto split: option.splits)
  qed
qed

lemma getNextAffectedFile_keeps:
  assumes "getNextAffectedFile ns s = Inr (Some (AffectedFile f), s')"
    and "p \<noteq> path f"
  shows "\<not> has (changedFilesSet s) p \<longrightarrow>
         (\<exists>c0 c1. semanticDiagnosticsPerFile s = Some c0 \<and>
            semanticDiagnosticsPerFile s' = Some c1 \<and> get c1 p = get c0 p)"
  using assms(1)
proof (induction rule: getNextAffectedFile_result_induct)
  case (return s)
  then obtain fs where "iterateBatch s fs = Inr (Some f, s')"
    by (auto simp: whileBody_file)
  from iterateBatch_Some[OF this] assms(2) show ?case
    by (auto simp: get_deleteEntry)
next
  case (again s t)
  from again(1) obtain s1 k u rest where
    s1: "(case affectedFiles s of None \<Rightarrow> Inr (None, s) | Some fs \<Rightarrow> iterateBatch s fs) = Inr (None, s1)"
    and ch: "changedFilesSet s1 = (k, u) # rest"
    and sb: "startBatch ns s1 k = Inr t"
    by (rule whileBody_continue)
  show ?case
  proof
    assume n: "\<not> has (changedFilesSet s) p"
    with batch_phase_None_keeps(2)[OF s1, of p] have n1: "\<not> has (changedFilesSet s1) p" by blast
    with ch have pk: "p \<noteq> k" by (auto simp: has_def)
    from n1 startBatch_props(1)[OF sb] have "\<not> has (changedFilesSet t) p" by simp
    with again(3) obtain cm c1 where m: "semanticDiagnosticsPerFile t = Some cm"
      "semanticDiagnosticsPerFile s' = Some c1" "get c1 p = get cm p"
      by blast
    from sb m(1) obtain c0 where c0: "semanticDiagnosticsPerFile s1 = Some c0" "cm = deleteEntry c0 k"
      by (auto simp: startBatch_def Let_def split: sum.splits option.splits prod.splits)
    from c0(1) batch_phase_None_keeps(1)[OF s1] have "semanticDiagnosticsPerFile s = Some c0"
      by simp
    moreover from pk m(3) c0(2) have "get c1 p = get c0 p" by (simp add: get_deleteEntry)
    ultimately show "\<exists>c0 c1. semanticDiagnosticsPerFile s = Some c0 \<and>
            semanticDiagnosticsPerFile s' = Some c1 \<and> get c1 p = get c0 p"
      using m(2) by blast
  qed
qed

text \<open>
  C1 (as amended). When \<open>getNextAffectedFile\<close> yields a source file \<open>f\<close> and the caller does not
  call \<open>doneWithAffectedFile\<close>, the next call yields \<open>f\<close> again and returns the state of the
  first call unchanged; in that state \<open>semanticDiagnosticsPerFile\<close> has no entry for \<open>f\<close>,
  every entry it has is an entry, with the same diagnostics, of the state before the first
  call, and every path but that of \<open>f\<close> that is not in \<open>changedFilesSet\<close> before the first
  call has the entry it had (a call that starts a batch deletes the entry of the changed
  file of the batch as well, line 172). When the cursor of the state before the first call
  already stands on a file of the batch that is not seen, that file is yielded and the state
  after the call is the state before it with the entry of \<open>f\<close> deleted from the cache, all
  other entries kept, and nothing else changed. A first call that has to skip seen files,
  complete a batch or start one may change other fields than the cache.
\<close>

theorem getNextAffectedFile_reyields_same_file:
  assumes "getNextAffectedFile ns s0 = Inr (Some (AffectedFile f), s1)"
  shows "getNextAffectedFile ns s1 = Inr (Some (AffectedFile f), s1) \<and>
         (\<exists>cache1. semanticDiagnosticsPerFile s1 = Some cache1 \<and> get cache1 (path f) = None \<and>
            (\<forall>p ds. get cache1 p = Some ds \<longrightarrow>
               (\<exists>cache0. semanticDiagnosticsPerFile s0 = Some cache0 \<and> get cache0 p = Some ds))) \<and>
         (\<forall>p. p \<noteq> path f \<and> map_of (changedFilesSet s0) p = None \<longrightarrow>
            (\<exists>cache0 cache1. semanticDiagnosticsPerFile s0 = Some cache0 \<and>
               semanticDiagnosticsPerFile s1 = Some cache1 \<and> map_of cache1 p = map_of cache0 p)) \<and>
         (\<forall>fs i seen.
            affectedFiles s0 = Some fs \<and> affectedFilesIndex s0 = Some i \<and> i < length fs \<and>
            seenAffectedFiles s0 = Some seen \<and> \<not> has seen (path (fs ! i)) \<longrightarrow>
            f = fs ! i \<and>
            (\<exists>cache0 cache1.
               semanticDiagnosticsPerFile s0 = Some cache0 \<and>
               s1 = s0\<lparr>semanticDiagnosticsPerFile := Some cache1\<rparr> \<and>
               cache1 = filter (\<lambda>entry. fst entry \<noteq> path f) cache0 \<and>
               (\<forall>p. get cache1 p = (if p = path f then None else get cache0 p))))"
proof (intro conjI allI impI)
  from assms have y: "yieldedState s1 f" by (rule getNextAffectedFile_yieldedState)
  then show "getNextAffectedFile ns s1 = Inr (Some (AffectedFile f), s1)"
    by (rule yieldedState_reyield)
  from y obtain cache1 where c1: "semanticDiagnosticsPerFile s1 = Some cache1" "\<not> has cache1 (path f)"
    by (auto simp: yieldedState_def)
  from c1(2) have "get cache1 (path f) = None" by (simp add: has_def get_def)
  with c1(1) getNextAffectedFile_entries[OF assms]
  show "\<exists>cache1. semanticDiagnosticsPerFile s1 = Some cache1 \<and> get cache1 (path f) = None \<and>
            (\<forall>p ds. get cache1 p = Some ds \<longrightarrow>
               (\<exists>cache0. semanticDiagnosticsPerFile s0 = Some cache0 \<and> get cache0 p = Some ds))"
    by blast
next
  fix p
  assume "p \<noteq> path f \<and> map_of (changedFilesSet s0) p = None"
  then have "p \<noteq> path f" "\<not> has (changedFilesSet s0) p" by (simp_all add: has_def)
  with getNextAffectedFile_keeps[OF assms, of p]
  show "\<exists>cache0 cache1. semanticDiagnosticsPerFile s0 = Some cache0 \<and>
               semanticDiagnosticsPerFile s1 = Some cache1 \<and> map_of cache1 p = map_of cache0 p"
    by (simp add: get_def)
next
  fix fs i seen
  assume h: "affectedFiles s0 = Some fs \<and> affectedFilesIndex s0 = Some i \<and> i < length fs \<and>
            seenAffectedFiles s0 = Some seen \<and> \<not> has seen (path (fs ! i))"
  then have eq: "getNextAffectedFile ns s0 =
           (case semanticDiagnosticsPerFile s0 of
              None \<Rightarrow> Inl TypeError
            | Some cache \<Rightarrow>
                Inr (Some (AffectedFile (fs ! i)),
                     s0\<lparr>semanticDiagnosticsPerFile := Some (deleteEntry cache (path (fs ! i)))\<rparr>))"
    by (intro cursor_on_unseen) auto
  with assms show f: "f = fs ! i"
    by (auto split: option.splits)
  from eq assms f obtain cache0 where c0: "semanticDiagnosticsPerFile s0 = Some cache0"
    "s1 = s0\<lparr>semanticDiagnosticsPerFile := Some (deleteEntry cache0 (path f))\<rparr>"
    by (auto split: option.splits)
  have "deleteEntry cache0 (path f) = filter (\<lambda>entry. fst entry \<noteq> path f) cache0"
    by (simp add: deleteEntry_def AList.delete_eq case_prod_unfold eq_commute)
  with c0 get_deleteEntry[of cache0 "path f"]
  show "\<exists>cache0 cache1.
               semanticDiagnosticsPerFile s0 = Some cache0 \<and>
               s1 = s0\<lparr>semanticDiagnosticsPerFile := Some cache1\<rparr> \<and>
               cache1 = filter (\<lambda>entry. fst entry \<noteq> path f) cache0 \<and>
               (\<forall>p. get cache1 p = (if p = path f then None else get cache0 p))"
    by auto
qed

lemma ex_next_cached:
  "getNextAffectedFile exNS exCached = Inr (Some (AffectedFile exFileA), exEvicted)"
  by (simp add: getNextAffectedFile.simps whileBody_def exCached_def exEvicted_def exIdle_def exYielded_def
       deleteEntry_def iterateBatch_def nextUnseen.simps has_def exFileA_def exFileB_def)

theorem getNextAffectedFile_reyields_same_file_witness:
  "getNextAffectedFile exNS exCached = Inr (Some (AffectedFile exFileA), exEvicted) \<and>
   getNextAffectedFile exNS exEvicted = Inr (Some (AffectedFile exFileA), exEvicted) \<and>
   semanticDiagnosticsPerFile exCached = Some [(''b'', [''old'']), (''a'', [''stale''])] \<and>
   semanticDiagnosticsPerFile exEvicted = Some [(''b'', [''old''])] \<and>
   exEvicted = exCached\<lparr>semanticDiagnosticsPerFile := Some [(''b'', [''old''])]\<rparr> \<and>
   affectedFiles exCached = Some [exFileA, exFileB] \<and> affectedFilesIndex exCached = Some 0 \<and>
   seenAffectedFiles exCached = Some []"
proof -
  note t = getNextAffectedFile_reyields_same_file[OF ex_next_cached]
  have "semanticDiagnosticsPerFile exCached = Some [(''b'', [''old'']), (''a'', [''stale''])]"
    and "semanticDiagnosticsPerFile exEvicted = Some [(''b'', [''old''])]"
    and "exEvicted = exCached\<lparr>semanticDiagnosticsPerFile := Some [(''b'', [''old''])]\<rparr>"
    and "affectedFiles exCached = Some [exFileA, exFileB]" "affectedFilesIndex exCached = Some 0"
    and "seenAffectedFiles exCached = Some []"
    by (simp_all add: exCached_def exEvicted_def exYielded_def exIdle_def)
  with t ex_next_cached show ?thesis by blast
qed

theorem only_cache_differs_counterexample:
  "getNextAffectedFile exNS exIdle = Inr (Some (AffectedFile exFileA), exYielded) \<and>
   exYielded\<lparr>semanticDiagnosticsPerFile := semanticDiagnosticsPerFile exIdle\<rparr> \<noteq> exIdle"
proof -
  have "exYielded\<lparr>semanticDiagnosticsPerFile := semanticDiagnosticsPerFile exIdle\<rparr> \<noteq> exIdle"
    by (simp add: exYielded_def exIdle_def)
  with ex_next show ?thesis by blast
qed

lemma has_copyEntries [simp]: "has (copyEntries source target) k \<longleftrightarrow> has source k \<or> has target k"
  unfolding copyEntries_def
proof (induction source arbitrary: target)
  case Nil
  then show ?case by simp
next
  case (Cons e source)
  obtain k' v where e: "e = (k', v)" by (cases e)
  have "has (e # source) k \<longleftrightarrow> k = k' \<or> has source k"
    by (auto simp: has_iff_keys e)
  with Cons[of "setEntry target k' v"] show ?case
    by (auto simp: e)
qed

lemma forEachKey_iff: "forEachKey m f \<longleftrightarrow> (\<exists>k. has m k \<and> f k)"
  by (auto simp: forEachKey_def has_iff_keys list_ex_iff)

lemma fold_diffFile_changed:
  "has (fst (fold (diffFile reused st canCopy) infos (changed, cache))) p \<longleftrightarrow>
     has changed p \<or> (\<exists>info. (p, info) \<in> set infos \<and> fileIsChanged reused st p info)"
proof (induction infos arbitrary: changed cache)
  case Nil
  then show ?case by simp
next
  case (Cons e infos)
  obtain q info where e: "e = (q, info)" by (cases e)
  obtain changed' cache' where d: "diffFile reused st canCopy e (changed, cache) = (changed', cache')"
    by (cases "diffFile reused st canCopy e (changed, cache)")
  have "has changed' p \<longleftrightarrow> has changed p \<or> (p = q \<and> fileIsChanged reused st q info)"
    using d by (auto simp: diffFile_def e split: if_splits option.splits)
  with Cons[of changed' cache'] d show ?case
    by (auto simp: e)
qed

lemma createBuilderProgramState_Inr:
  assumes "createBuilderProgramState ns newProgram oldState = Inr state"
  defines "base \<equiv> create ns newProgram (map_option BuilderState.truncate oldState)"
  defines "reused \<equiv>
    (if canReuseOldState ns (referencedMap base) (map_option BuilderState.truncate oldState)
     then oldState else None)"
  defines "cache0 \<equiv> (if \<not> bundledOutput (getCompilerOptions newProgram) then Some [] else None)"
  defines "canCopy \<equiv> (Option.bind reused semanticDiagnosticsPerFile \<noteq> None \<and> cache0 \<noteq> None)"
  defines "changed0 \<equiv> (case reused of None \<Rightarrow> [] | Some old \<Rightarrow> copyEntries (changedFilesSet old) [])"
  defines "result \<equiv> fold (diffFile reused base canCopy) (fileInfos base) (changed0, cache0)"
  shows "fileInfos state = fileInfos base" "referencedMap state = referencedMap base"
    "changedFilesSet state = fst result" "semanticDiagnosticsPerFile state = snd result"
    "affectedFiles state = None" "affectedFilesIndex state = None"
    "currentChangedFilePath state = None" "currentAffectedFilesSignatures state = None"
    "seenAffectedFiles state = None" "program state = newProgram"
    "\<And>old. reused = Some old \<Longrightarrow> oldStateSane old canCopy"
    "BuilderState.truncate state = base"
  using assms(1)
  unfolding createBuilderProgramState_def Let_def base_def reused_def cache0_def canCopy_def
    changed0_def result_def
  by (auto split: if_splits option.splits simp: BuilderState.truncate_def)

lemma createBuilderProgramState_changed_iff:
  assumes "createBuilderProgramState ns newProgram oldState = Inr state"
  shows "has (changedFilesSet state) p \<longleftrightarrow>
           (\<exists>old. oldState = Some old \<and>
                  canReuseOldState ns (referencedMap state) (Some (BuilderState.truncate old)) \<and>
                  has (changedFilesSet old) p) \<or>
           (\<exists>info. (p, info) \<in> set (fileInfos state) \<and>
              (\<not> canReuseOldState ns (referencedMap state) (map_option BuilderState.truncate oldState) \<or>
               (\<exists>old. oldState = Some old \<and>
                  (get (fileInfos old) p = None \<or>
                   (\<exists>oldInfo. get (fileInfos old) p = Some oldInfo \<and> version oldInfo \<noteq> version info) \<or>
                   \<not> hasSameKeys (Option.bind (referencedMap state) (\<lambda>m. get m p))
                                  (Option.bind (referencedMap old) (\<lambda>m. get m p)) \<or>
                   (\<exists>refs q. Option.bind (referencedMap state) (\<lambda>m. get m p) = Some refs \<and>
                      has refs q \<and> \<not> has (fileInfos state) q \<and> has (fileInfos old) q)))))"
proof -
  define base where "base = create ns newProgram (map_option BuilderState.truncate oldState)"
  define reused where "reused =
    (if canReuseOldState ns (referencedMap base) (map_option BuilderState.truncate oldState)
     then oldState else None)"
  note c = createBuilderProgramState_Inr[OF assms, folded base_def, folded reused_def]
  have ne: "\<not> (canReuseOldState ns (referencedMap base) (map_option BuilderState.truncate oldState) \<and>
               oldState = None)"
    using assms unfolding createBuilderProgramState_def Let_def base_def
    by (auto split: if_splits)
  have changed: "has (changedFilesSet state) p \<longleftrightarrow>
      (\<exists>old. reused = Some old \<and> has (changedFilesSet old) p) \<or>
      (\<exists>info. (p, info) \<in> set (fileInfos base) \<and> fileIsChanged reused base p info)"
    unfolding c(3) fold_diffFile_changed by (auto split: option.splits)
  have fic: "fileIsChanged reused base p info \<longleftrightarrow>
      (\<not> canReuseOldState ns (referencedMap base) (map_option BuilderState.truncate oldState) \<or>
       (\<exists>old. oldState = Some old \<and>
          (get (fileInfos old) p = None \<or>
           (\<exists>oldInfo. get (fileInfos old) p = Some oldInfo \<and> version oldInfo \<noteq> version info) \<or>
           \<not> hasSameKeys (Option.bind (referencedMap base) (\<lambda>m. get m p))
                          (Option.bind (referencedMap old) (\<lambda>m. get m p)) \<or>
           (\<exists>refs q. Option.bind (referencedMap base) (\<lambda>m. get m p) = Some refs \<and>
              has refs q \<and> \<not> has (fileInfos base) q \<and> has (fileInfos old) q))))" for info
    using ne unfolding fileIsChanged_def reused_def Let_def forEachKey_iff
    by (auto split: option.splits)
  have r: "(\<exists>old. reused = Some old \<and> has (changedFilesSet old) p) \<longleftrightarrow>
      (\<exists>old. oldState = Some old \<and>
              canReuseOldState ns (referencedMap base) (Some (BuilderState.truncate old)) \<and>
              has (changedFilesSet old) p)"
    unfolding reused_def by auto
  show ?thesis
    unfolding changed fic r c(1) c(2) ..
qed

lemma hasSameKeys_iff:
  "hasSameKeys mapA mapB \<longleftrightarrow>
     (mapA = None \<and> mapB = None) \<or>
     (\<exists>m1 m2. mapA = Some m1 \<and> mapB = Some m2 \<and> length m1 = length m2 \<and>
        fst ` set m1 \<subseteq> fst ` set m2)"
  by (auto simp: hasSameKeys_def forEachKey_iff has_iff_keys split: option.splits)

lemma same_keys_distinct:
  assumes "distinct (map fst m1)" "distinct (map fst m2)"
  shows "length m1 = length m2 \<and> fst ` set m1 \<subseteq> fst ` set m2 \<longleftrightarrow> fst ` set m1 = fst ` set m2"
proof -
  from assms have c: "card (fst ` set m1) = length m1" "card (fst ` set m2) = length m2"
    using distinct_card[of "map fst m1"] distinct_card[of "map fst m2"] by simp_all
  show ?thesis
  proof
    assume "length m1 = length m2 \<and> fst ` set m1 \<subseteq> fst ` set m2"
    with c show "fst ` set m1 = fst ` set m2"
      by (intro card_subset_eq) auto
  next
    assume "fst ` set m1 = fst ` set m2"
    with c show "length m1 = length m2 \<and> fst ` set m1 \<subseteq> fst ` set m2" by auto
  qed
qed

text \<open>
  C2 (as amended). A path \<open>p\<close> is in \<open>changedFilesSet\<close> of the constructed state exactly when
  the old state is reused and has \<open>p\<close> in its \<open>changedFilesSet\<close> (line 78 copies it), or \<open>p\<close>
  is a path of the new \<open>fileInfos\<close> and: the old state is not reused, or \<open>p\<close> is absent from
  the old \<open>fileInfos\<close>, or its version differs, or exactly one of the new and the old
  reference set of \<open>p\<close> is absent, or the two differ in size or in key membership, or some
  path that \<open>p\<close> references in the new program is in the old \<open>fileInfos\<close> and not in the new.
  \<open>hasSameKeys\<close> holds of two maps with distinct keys exactly when their key sets are equal,
  of two absent maps, and of no absent map with a map.
\<close>

theorem createBuilderProgramState_changedFilesSet:
  assumes "createBuilderProgramState ns newProgram oldState = Inr state"
  shows "(p \<in> fst ` set (changedFilesSet state) \<longleftrightarrow>
           (\<exists>old. oldState = Some old \<and>
                  canReuseOldState ns (referencedMap state) (Some (BuilderState.truncate old)) \<and>
                  p \<in> fst ` set (changedFilesSet old)) \<or>
           (\<exists>info. (p, info) \<in> set (fileInfos state) \<and>
              (\<not> canReuseOldState ns (referencedMap state) (map_option BuilderState.truncate oldState) \<or>
               (\<exists>old. oldState = Some old \<and>
                  (map_of (fileInfos old) p = None \<or>
                   (\<exists>oldInfo. map_of (fileInfos old) p = Some oldInfo \<and>
                      version oldInfo \<noteq> version info) \<or>
                   (Option.bind (referencedMap state) (\<lambda>m. map_of m p) = None) \<noteq>
                     (Option.bind (referencedMap old) (\<lambda>m. map_of m p) = None) \<or>
                   (\<exists>newRefs oldRefs.
                      Option.bind (referencedMap state) (\<lambda>m. map_of m p) = Some newRefs \<and>
                      Option.bind (referencedMap old) (\<lambda>m. map_of m p) = Some oldRefs \<and>
                      (length newRefs \<noteq> length oldRefs \<or>
                       \<not> fst ` set newRefs \<subseteq> fst ` set oldRefs)) \<or>
                   (\<exists>refs q. Option.bind (referencedMap state) (\<lambda>m. map_of m p) = Some refs \<and>
                      q \<in> fst ` set refs \<and> q \<notin> fst ` set (fileInfos state) \<and>
                      q \<in> fst ` set (fileInfos old))))))) \<and>
         (\<forall>m1 m2. distinct (map fst m1) \<and> distinct (map fst m2) \<longrightarrow>
            (hasSameKeys (Some m1) (Some m2) \<longleftrightarrow> fst ` set m1 = fst ` set m2) \<and>
            ((length m1 \<noteq> length m2 \<or> \<not> fst ` set m1 \<subseteq> fst ` set m2) \<longleftrightarrow>
               fst ` set m1 \<noteq> fst ` set m2)) \<and>
         hasSameKeys None None \<and>
         (\<forall>m. \<not> hasSameKeys None (Some m) \<and> \<not> hasSameKeys (Some m) None)"
proof (intro conjI allI impI)
  have n: "\<not> hasSameKeys a b \<longleftrightarrow>
      (a = None) \<noteq> (b = None) \<or>
      (\<exists>m1 m2. a = Some m1 \<and> b = Some m2 \<and>
         (length m1 \<noteq> length m2 \<or> \<not> fst ` set m1 \<subseteq> fst ` set m2))" for a b
    unfolding hasSameKeys_iff by (cases a; cases b) auto
  show "p \<in> fst ` set (changedFilesSet state) \<longleftrightarrow>
           (\<exists>old. oldState = Some old \<and>
                  canReuseOldState ns (referencedMap state) (Some (BuilderState.truncate old)) \<and>
                  p \<in> fst ` set (changedFilesSet old)) \<or>
           (\<exists>info. (p, info) \<in> set (fileInfos state) \<and>
              (\<not> canReuseOldState ns (referencedMap state) (map_option BuilderState.truncate oldState) \<or>
               (\<exists>old. oldState = Some old \<and>
                  (map_of (fileInfos old) p = None \<or>
                   (\<exists>oldInfo. map_of (fileInfos old) p = Some oldInfo \<and>
                      version oldInfo \<noteq> version info) \<or>
                   (Option.bind (referencedMap state) (\<lambda>m. map_of m p) = None) \<noteq>
                     (Option.bind (referencedMap old) (\<lambda>m. map_of m p) = None) \<or>
                   (\<exists>newRefs oldRefs.
                      Option.bind (referencedMap state) (\<lambda>m. map_of m p) = Some newRefs \<and>
                      Option.bind (referencedMap old) (\<lambda>m. map_of m p) = Some oldRefs \<and>
                      (length newRefs \<noteq> length oldRefs \<or>
                       \<not> fst ` set newRefs \<subseteq> fst ` set oldRefs)) \<or>
                   (\<exists>refs q. Option.bind (referencedMap state) (\<lambda>m. map_of m p) = Some refs \<and>
                      q \<in> fst ` set refs \<and> q \<notin> fst ` set (fileInfos state) \<and>
                      q \<in> fst ` set (fileInfos old))))))"
    using createBuilderProgramState_changed_iff[OF assms, of p]
    unfolding n has_iff_keys get_def
    by (simp only: disj_assoc)
next
  fix m1 :: "'a Map" and m2 :: "'b Map"
  assume d: "distinct (map fst m1) \<and> distinct (map fst m2)"
  then show "hasSameKeys (Some m1) (Some m2) \<longleftrightarrow> fst ` set m1 = fst ` set m2"
    using same_keys_distinct[of m1 m2] by (simp add: hasSameKeys_iff)
  from d show "(length m1 \<noteq> length m2 \<or> \<not> fst ` set m1 \<subseteq> fst ` set m2) \<longleftrightarrow>
               fst ` set m1 \<noteq> fst ` set m2"
    using same_keys_distinct[of m1 m2] by blast
next
  show "hasSameKeys None None" by (simp add: hasSameKeys_def)
next
  fix m
  show "\<not> hasSameKeys None (Some m)" by (simp add: hasSameKeys_def)
  show "\<not> hasSameKeys (Some m) None" by (simp add: hasSameKeys_def)
qed

lemmas constructor_defs = createBuilderProgramState_def Let_def bundledOutput_def truthy_def
  diffFile_def fileIsChanged_def setEntry_def BuilderState.truncate_def oldStateSane_def
  forEachKey_def has_def copyEntries_def get_def hasSameKeys_def

lemma ex_recreate: "createBuilderProgramState exNS exProgram (Some exIdle) = Inr exIdle"
  by (simp add: constructor_defs exNS_def exProgram_def exIdle_def exFileA_def exFileB_def)

lemma ex_create_refs:
  "createBuilderProgramState exRefsNS exProgram (Some exRefsOld) = Inr exRefsNew"
  by (simp add: constructor_defs exRefsNS_def exRefsOld_def exRefsNew_def exNS_def exProgram_def
      exIdle_def exFileA_def exFileB_def)

theorem createBuilderProgramState_changedFilesSet_witness:
  "createBuilderProgramState exRefsNS exProgram (Some exRefsOld) = Inr exRefsNew \<and>
   canReuseOldState exRefsNS (referencedMap exRefsNew) (Some (BuilderState.truncate exRefsOld)) \<and>
   changedFilesSet exRefsOld = [] \<and>
   map_of (fileInfos exRefsOld) ''a'' = Some \<lparr>version = ''1'', signature = None\<rparr> \<and>
   (''a'', \<lparr>version = ''1'', signature = None\<rparr>) \<in> set (fileInfos exRefsNew) \<and>
   Option.bind (referencedMap exRefsNew) (\<lambda>m. map_of m ''a'') = Some [] \<and>
   Option.bind (referencedMap exRefsOld) (\<lambda>m. map_of m ''a'') = Some [(''b'', ())] \<and>
   ''a'' \<in> fst ` set (changedFilesSet exRefsNew)"
proof -
  have h: "canReuseOldState exRefsNS (referencedMap exRefsNew) (Some (BuilderState.truncate exRefsOld))"
    "changedFilesSet exRefsOld = []"
    "map_of (fileInfos exRefsOld) ''a'' = Some \<lparr>version = ''1'', signature = None\<rparr>"
    "(''a'', \<lparr>version = ''1'', signature = None\<rparr>) \<in> set (fileInfos exRefsNew)"
    "Option.bind (referencedMap exRefsNew) (\<lambda>m. map_of m ''a'') = Some []"
    "Option.bind (referencedMap exRefsOld) (\<lambda>m. map_of m ''a'') = Some [(''b'', ())]"
    by (simp_all add: exRefsNS_def exRefsOld_def exRefsNew_def exNS_def exIdle_def
        BuilderState.truncate_def)
  have "''a'' \<in> fst ` set (changedFilesSet exRefsNew)"
    using createBuilderProgramState_changedFilesSet[OF ex_create_refs, of "''a''"] h
    by (auto simp: exRefsNS_def exNS_def)
  with h ex_create_refs show ?thesis by simp
qed

theorem changed_exactly_when_counterexample:
  "createBuilderProgramState exNS exProgram (Some exIdle) = Inr exIdle \<and>
   canReuseOldState exNS (referencedMap exIdle) (Some (BuilderState.truncate exIdle)) \<and>
   has (changedFilesSet exIdle) ''a'' \<and>
   get (fileInfos exIdle) ''a'' = Some \<lparr>version = ''1'', signature = None\<rparr> \<and>
   hasSameKeys (Option.bind (referencedMap exIdle) (\<lambda>m. get m ''a''))
               (Option.bind (referencedMap exIdle) (\<lambda>m. get m ''a'')) \<and>
   Option.bind (referencedMap exIdle) (\<lambda>m. get m ''a'') = (None :: ReferencedSet option) \<and>
   \<not> fileIsChanged (Some exIdle) (BuilderState.truncate exIdle) ''a'' \<lparr>version = ''1'', signature = None\<rparr> \<and>
   createBuilderProgramState exRefsNS exProgram (Some exRefsOld) = Inr exRefsNew \<and>
   changedFilesSet exRefsOld = [] \<and>
   get (fileInfos exRefsOld) ''b'' = Some \<lparr>version = ''1'', signature = None\<rparr> \<and>
   Option.bind (referencedMap exRefsNew) (\<lambda>m. get m ''b'') = None \<and>
   Option.bind (referencedMap exRefsOld) (\<lambda>m. get m ''b'') = Some [] \<and>
   has (changedFilesSet exRefsNew) ''b''"
proof -
  have "canReuseOldState exNS (referencedMap exIdle) (Some (BuilderState.truncate exIdle))"
    and "has (changedFilesSet exIdle) ''a''"
    and "get (fileInfos exIdle) ''a'' = Some \<lparr>version = ''1'', signature = None\<rparr>"
    and "hasSameKeys (Option.bind (referencedMap exIdle) (\<lambda>m. get m ''a''))
               (Option.bind (referencedMap exIdle) (\<lambda>m. get m ''a''))"
    and "Option.bind (referencedMap exIdle) (\<lambda>m. get m ''a'') = (None :: ReferencedSet option)"
    and "\<not> fileIsChanged (Some exIdle) (BuilderState.truncate exIdle) ''a'' \<lparr>version = ''1'', signature = None\<rparr>"
    and "changedFilesSet exRefsOld = []"
    and "get (fileInfos exRefsOld) ''b'' = Some \<lparr>version = ''1'', signature = None\<rparr>"
    and "Option.bind (referencedMap exRefsNew) (\<lambda>m. get m ''b'') = None"
    and "Option.bind (referencedMap exRefsOld) (\<lambda>m. get m ''b'') = Some []"
    and "has (changedFilesSet exRefsNew) ''b''"
    by (simp_all add: exIdle_def exNS_def exRefsOld_def exRefsNew_def BuilderState.truncate_def
        get_def hasSameKeys_def has_def fileIsChanged_def)
  with ex_recreate ex_create_refs show ?thesis by blast
qed

lemma whileBody_None:
  assumes "whileBody ns s = Inr (Inl (None, s1))"
  shows "changedFilesSet s1 = [] \<and> affectedFiles s1 = None \<and>
         ((affectedFiles s = None \<longrightarrow> noPendingSignatures s) \<longrightarrow> noPendingSignatures s1)"
  using assms
  by (auto simp: whileBody_def iterateBatch_def completeBatch_def noPendingSignatures_def Let_def
      split: sum.splits option.splits list.splits if_splits prod.splits)

lemma getNextAffectedFile_None:
  assumes "getNextAffectedFile ns s = Inr (None, s1)"
  shows "changedFilesSet s1 = [] \<and> affectedFiles s1 = None \<and>
         ((affectedFiles s = None \<longrightarrow> noPendingSignatures s) \<longrightarrow> noPendingSignatures s1)"
  using assms
proof (induction rule: getNextAffectedFile_result_induct)
  case (return s)
  then show ?case by (rule whileBody_None)
next
  case (again s s')
  from again(1) have "affectedFiles s' \<noteq> None"
    by (elim whileBody_continue) (simp add: startBatch_props)
  with again(3) show ?case by simp
qed

lemma whileBody_return_noPending:
  assumes "whileBody ns s = Inr (Inl (r, s1))" "affectedFiles s = None \<longrightarrow> noPendingSignatures s"
  shows "affectedFiles s1 = None \<longrightarrow> noPendingSignatures s1"
  using assms
  by (auto simp: whileBody_def iterateBatch_def completeBatch_def noPendingSignatures_def Let_def
      split: sum.splits option.splits list.splits if_splits prod.splits)

lemma getNextAffectedFile_noPending:
  assumes "getNextAffectedFile ns s = Inr (r, s1)"
  shows "(affectedFiles s = None \<longrightarrow> noPendingSignatures s) \<longrightarrow>
         (affectedFiles s1 = None \<longrightarrow> noPendingSignatures s1)"
  using assms
proof (induction rule: getNextAffectedFile_result_induct)
  case (return s)
  from whileBody_return_noPending[OF return] show ?case by simp
next
  case (again s s')
  from again(1) have "affectedFiles s' \<noteq> None"
    by (elim whileBody_continue) (simp add: startBatch_props)
  with again(3) show ?case by simp
qed

lemma doneWithAffectedFile_noPending:
  assumes "doneWithAffectedFile s a = Inr s1" "affectedFiles s = None \<longrightarrow> noPendingSignatures s"
  shows "affectedFiles s1 = None \<longrightarrow> noPendingSignatures s1"
  using assms
  by (auto simp: doneWithAffectedFile_def noPendingSignatures_def split: Affected.splits option.splits)

lemma drainAffected_result_induct [consumes 1, case_names finished round]:
  assumes "drainAffected ns s = Inr r"
    and "\<And>s. getNextAffectedFile ns s = Inr (None, r) \<Longrightarrow> P s"
    and "\<And>s a s1 s2. getNextAffectedFile ns s = Inr (Some a, s1) \<Longrightarrow>
           doneWithAffectedFile s1 a = Inr s2 \<Longrightarrow> drainAffected ns s2 = Inr r \<Longrightarrow> P s2 \<Longrightarrow> P s"
  shows "P s"
proof -
  have "drainAffected n s = Inr r \<Longrightarrow> n = ns \<Longrightarrow> P s" for n
  proof (induction n s rule: drainAffected.induct)
    case (1 n state)
    from "1.prems" consider
      (a) "getNextAffectedFile ns state = Inr (None, r)"
      | (b) a s1 s2 where "getNextAffectedFile ns state = Inr (Some a, s1)"
          "doneWithAffectedFile s1 a = Inr s2" "drainAffected ns s2 = Inr r"
      by (subst (asm) drainAffected.simps) (auto split: sum.splits option.splits prod.splits)
    then show ?case
    proof cases
      case a
      then show ?thesis by (rule assms(2))
    next
      case b
      from "1.prems"(2) b "1.IH" have "P s2"
        by fastforce
      with b show ?thesis by (intro assms(3)[of state a s1 s2])
    qed
  qed
  with assms(1) show ?thesis by blast
qed

lemma drainAffected_exhausts:
  assumes "drainAffected ns s = Inr s'"
  shows "(affectedFiles s = None \<longrightarrow> noPendingSignatures s) \<longrightarrow>
         changedFilesSet s' = [] \<and> affectedFiles s' = None \<and> noPendingSignatures s'"
  using assms
proof (induction rule: drainAffected_result_induct)
  case (finished s)
  from getNextAffectedFile_None[OF finished] show ?case by simp
next
  case (round s a s1 s2)
  show ?case
  proof
    assume "affectedFiles s = None \<longrightarrow> noPendingSignatures s"
    with getNextAffectedFile_noPending[OF round(1)]
    have "affectedFiles s1 = None \<longrightarrow> noPendingSignatures s1" by simp
    from doneWithAffectedFile_noPending[OF round(2) this] round(4)
    show "changedFilesSet s' = [] \<and> affectedFiles s' = None \<and> noPendingSignatures s'"
      by simp
  qed
qed

text \<open>
  C4. From a freshly constructed state, when the loop that calls \<open>getNextAffectedFile\<close> and
  commits every yielded item with \<open>doneWithAffectedFile\<close> (lines 395-397) has run until
  \<open>getNextAffectedFile\<close> returned \<^verbatim>\<open>undefined\<close>, \<open>changedFilesSet\<close> is empty, \<open>affectedFiles\<close> is
  absent and no signature is pending: \<open>currentAffectedFilesSignatures\<close> is an empty map, or
  still \<^verbatim>\<open>undefined\<close> when no batch was ever started.
\<close>

theorem drainAffected_exhaustion:
  assumes "createBuilderProgramState ns newProgram oldState = Inr s0"
    and "drainAffected ns s0 = Inr s'"
  shows "changedFilesSet s' = [] \<and> affectedFiles s' = None \<and>
         (currentAffectedFilesSignatures s' = None \<or> currentAffectedFilesSignatures s' = Some [])"
proof -
  from createBuilderProgramState_Inr[OF assms(1)]
  have "noPendingSignatures s0" by (simp add: noPendingSignatures_def)
  with drainAffected_exhausts[OF assms(2)]
  show ?thesis by (auto simp: noPendingSignatures_def split: option.splits)
qed

lemmas ex_defs = exNS_def exProgram_def exFileA_def exFileB_def
lemmas iterator_defs = whileBody_def iterateBatch_def completeBatch_def startBatch_def
  doneWithAffectedFile_def nextUnseen.simps updateSignaturesFromCache_def
  bundledOutput_def truthy_def BuilderState.truncate_def
  has_def get_def setEntry_def deleteEntry_def Let_def

lemma ex_drain: "drainAffected exNS exIdle = Inr exDrained"
  by (simp add: drainAffected.simps getNextAffectedFile.simps exIdle_def exDrained_def ex_defs iterator_defs)

theorem drainAffected_exhaustion_witness:
  "createBuilderProgramState exNS exProgram None = Inr exIdle \<and>
   drainAffected exNS exIdle = Inr exDrained \<and>
   changedFilesSet exIdle \<noteq> [] \<and>
   changedFilesSet exDrained = [] \<and> affectedFiles exDrained = None \<and>
   currentAffectedFilesSignatures exDrained = Some []"
proof -
  have "changedFilesSet exIdle \<noteq> []" "currentAffectedFilesSignatures exDrained = Some []"
    by (simp_all add: exIdle_def exDrained_def)
  with drainAffected_exhaustion[OF ex_create ex_drain] ex_create ex_drain
  show ?thesis by simp
qed

text \<open>
  C10. When the program of the old builder program's state is the program passed as the new
  program, \<open>createBuilderProgram\<close> returns the old builder program as it is, state included,
  whatever the BuilderState functions, the host and the kind are: no state is constructed
  and the diff is not consulted, also where constructing the state would fail.
\<close>

theorem createBuilderProgram_same_program:
  assumes "program (getState oldProgram) = newProgram"
  shows "createBuilderProgram ns newProgram host (Some oldProgram) kind = Inr oldProgram"
  using assms by (simp add: createBuilderProgram_def)

theorem createBuilderProgram_same_program_witness:
  "program (getState exOldBuilder) = exProgram \<and>
   createBuilderProgram exNS exProgram \<lparr>useCaseSensitiveFileNames = False\<rparr> (Some exOldBuilder)
     EmitAndSemanticDiagnosticsBuilderProgram = Inr exOldBuilder \<and>
   createBuilderProgramState exNS exProgram (Some (getState exOldBuilder)) = Inl AssertionFailure"
proof -
  have p: "program (getState exOldBuilder) = exProgram"
    by (simp add: exOldBuilder_def exInconsistent_def exIdle_def)
  have "createBuilderProgramState exNS exProgram (Some (getState exOldBuilder)) = Inl AssertionFailure"
    by (simp add: createBuilderProgramState_def exOldBuilder_def exInconsistent_def exIdle_def
        exNS_def Let_def BuilderState.truncate_def oldStateSane_def truthy_def)
  with p createBuilderProgram_same_program[OF p] show ?thesis by simp
qed

lemma yieldedState_assert_passes:
  assumes "yieldedState s f"
  shows "assertSourceFileOkWithoutNextAffectedCall s (Some f) = Inr ()"
  using assms by (auto simp: yieldedState_def assertSourceFileOkWithoutNextAffectedCall_def)

lemma elementBeforeIndex_iff:
  "elementBeforeIndex fs idx = Some sf \<longleftrightarrow> (\<exists>i. idx = Some (Suc i) \<and> i < length fs \<and> fs ! i = sf)"
proof (cases idx)
  case None
  then show ?thesis by (simp add: elementBeforeIndex_def)
next
  case (Some j)
  show ?thesis
  proof (cases j)
    case 0
    with Some show ?thesis by (simp add: elementBeforeIndex_def)
  next
    case (Suc i)
    with Some show ?thesis by (auto simp: elementBeforeIndex_def)
  qed
qed

lemma assert_passes_iff:
  "assertSourceFileOkWithoutNextAffectedCall state sourceFile = Inr () \<longleftrightarrow>
      sourceFile = None \<or> affectedFiles state = None \<or>
      (\<exists>sf fs. sourceFile = Some sf \<and> affectedFiles state = Some fs \<and>
         ((\<forall>i. affectedFilesIndex state = Some (Suc i) \<and> i < length fs \<longrightarrow> fs ! i \<noteq> sf) \<or>
          (\<exists>cache. semanticDiagnosticsPerFile state = Some cache \<and>
             map_of cache (path sf) = None)))"
proof -
  have "assertSourceFileOkWithoutNextAffectedCall state sourceFile = Inr () \<longleftrightarrow>
      sourceFile = None \<or> affectedFiles state = None \<or>
      (\<exists>sf fs. sourceFile = Some sf \<and> affectedFiles state = Some fs \<and>
         (elementBeforeIndex fs (affectedFilesIndex state) \<noteq> Some sf \<or>
          (\<exists>cache. semanticDiagnosticsPerFile state = Some cache \<and> \<not> has cache (path sf))))"
    by (auto simp: assertSourceFileOkWithoutNextAffectedCall_def split: option.splits)
  then show ?thesis
    unfolding elementBeforeIndex_iff has_def by auto
qed

lemma getSemanticDiagnosticsOfFile_caches:
  assumes "getSemanticDiagnosticsOfFile s f = Inr (ds, s')"
  shows "\<exists>cache. semanticDiagnosticsPerFile s' = Some cache \<and> has cache (path f)"
    and "affectedFiles s' = affectedFiles s" and "affectedFilesIndex s' = affectedFilesIndex s"
    and "seenAffectedFiles s' = seenAffectedFiles s"
  using assms
  by (auto simp: getSemanticDiagnosticsOfFile_def has_def get_def setEntry_def update_conv'
      split: option.splits sum.splits)

lemma getSemanticDiagnosticsOfNextAffectedFile_committed:
  assumes "getSemanticDiagnosticsOfNextAffectedFile ns s0 ignore = Inr (Some (ds, AffectedFile f), s)"
  shows "\<exists>fs i cache. affectedFiles s = Some fs \<and> affectedFilesIndex s = Some (Suc i) \<and>
           i < length fs \<and> fs ! i = f \<and>
           semanticDiagnosticsPerFile s = Some cache \<and> has cache (path f)"
  using assms
proof (induction ns s0 ignore rule: getSemanticDiagnosticsOfNextAffectedFile.induct)
  case (1 ns state ignoreSourceFile)
  from "1.prems" obtain r state1 where n: "getNextAffectedFile ns state = Inr (r, state1)"
    by (subst (asm) getSemanticDiagnosticsOfNextAffectedFile.simps)
       (auto split: sum.splits prod.splits)
  show ?case
  proof (cases r)
    case None
    with "1.prems" n show ?thesis
      by (subst (asm) getSemanticDiagnosticsOfNextAffectedFile.simps) simp
  next
    case (Some a)
    show ?thesis
    proof (cases a)
      case WholeProgram
      with "1.prems" n Some show ?thesis
        by (subst (asm) getSemanticDiagnosticsOfNextAffectedFile.simps)
           (auto simp: toAffectedFileResult_def doneWithAffectedFile_def split: sum.splits)
    next
      case (AffectedFile g)
      show ?thesis
      proof (cases "case ignoreSourceFile of None \<Rightarrow> False | Some ignore \<Rightarrow> ignore g")
        case True
        with "1.prems" n Some AffectedFile obtain state2 where
          d: "doneWithAffectedFile state1 (AffectedFile g) = Inr state2" and
          r: "getSemanticDiagnosticsOfNextAffectedFile ns state2 ignoreSourceFile =
                Inr (Some (ds, AffectedFile f), s)"
          by (subst (asm) getSemanticDiagnosticsOfNextAffectedFile.simps)
             (auto split: sum.splits)
        from n Some AffectedFile have n': "getNextAffectedFile ns state = Inr (Some (AffectedFile g), state1)"
          by simp
        from "1.IH"[OF n' refl refl refl True d r] show ?thesis .
      next
        case False
        with "1.prems" n Some AffectedFile obtain state2 where
          c: "getSemanticDiagnosticsOfFile state1 g = Inr (ds, state2)" and
          d: "doneWithAffectedFile state2 (AffectedFile g) = Inr s" and fg: "f = g"
          by (subst (asm) getSemanticDiagnosticsOfNextAffectedFile.simps)
             (auto simp: toAffectedFileResult_def split: sum.splits)
        from n Some AffectedFile have "yieldedState state1 g"
          by (simp add: getNextAffectedFile_yieldedState)
        then obtain fs j where y: "affectedFiles state1 = Some fs" "affectedFilesIndex state1 = Some j"
          "j < length fs" "fs ! j = g"
          by (auto simp: yieldedState_def)
        from getSemanticDiagnosticsOfFile_caches[OF c] y obtain cache where
          s2: "semanticDiagnosticsPerFile state2 = Some cache" "has cache (path g)"
          "affectedFiles state2 = Some fs" "affectedFilesIndex state2 = Some j"
          by auto
        from d s2 y fg show ?thesis
          by (auto simp: doneWithAffectedFile_def split: option.splits)
      qed
    qed
  qed
qed

lemma assert_fails_calls_fail:
  assumes "assertSourceFileOkWithoutNextAffectedCall state sourceFile = Inl e"
  shows "getSemanticDiagnostics kind ns state sourceFile = Inl e"
    and "emit EmitAndSemanticDiagnosticsBuilderProgram ns state sourceFile = Inl e"
  using assms by (simp_all add: getSemanticDiagnostics_def emit_def)

lemma ex_diagnostics_of_next:
  "getSemanticDiagnosticsOfNextAffectedFile exNS exIdle None =
     Inr (Some ([''error''], AffectedFile exFileA), exCommitted)"
proof -
  have "getSemanticDiagnosticsOfFile exYielded exFileA =
          Inr ([''error''], exYielded\<lparr>semanticDiagnosticsPerFile := Some [(''a'', [''error''])]\<rparr>)"
    by (simp add: getSemanticDiagnosticsOfFile_def exYielded_def exIdle_def ex_defs get_def
        setEntry_def)
  moreover have "toAffectedFileResult
          (exYielded\<lparr>semanticDiagnosticsPerFile := Some [(''a'', [''error''])]\<rparr>)
          [''error''] (AffectedFile exFileA) =
        Inr (Some ([''error''], AffectedFile exFileA), exCommitted)"
    by (simp add: toAffectedFileResult_def doneWithAffectedFile_def exCommitted_def exYielded_def
        exIdle_def ex_defs setEntry_def)
  ultimately show ?thesis
    by (subst getSemanticDiagnosticsOfNextAffectedFile.simps) (simp add: ex_next)
qed

text \<open>
  C7. The claim is that what \<open>getSemanticDiagnostics\<close> (of both kinds, with a file) and
  \<open>emit\<close> (of the emit-and-diagnostics kind, with a target file) assert first fails for the
  file that is yielded and not committed, and passes for every other file. The assertion of
  line 117 reads \<^verbatim>\<open>affectedFiles[affectedFilesIndex - 1]\<close>, the element before the cursor,
  where the yielded file is \<^verbatim>\<open>affectedFiles[affectedFilesIndex]\<close>. So for the file that
  \<open>getNextAffectedFile\<close> has just yielded the assertion passes, \<open>emit\<close> goes on to the
  program, and \<open>getSemanticDiagnostics\<close> goes on to cache the diagnostics of the file that is
  not committed; and for the file that \<open>getSemanticDiagnosticsOfNextAffectedFile\<close> has just
  returned, which is committed (the cursor is behind it), the assertion fails, and with it
  \<open>getSemanticDiagnostics\<close> and \<open>emit\<close>. The last part says when the assertion passes.
\<close>

theorem assertion_reads_element_before_cursor:
  "(\<forall>s0 f. getNextAffectedFile ns s0 = Inr (Some (AffectedFile f), state) \<longrightarrow>
      (\<exists>fs i. affectedFiles state = Some fs \<and> affectedFilesIndex state = Some i \<and>
         i < length fs \<and> fs ! i = f) \<and>
      assertSourceFileOkWithoutNextAffectedCall state (Some f) = Inr () \<and>
      emit EmitAndSemanticDiagnosticsBuilderProgram ns state (Some f) =
        map_sum id (\<lambda>r. (r, state)) (programEmit (program state) (Some f)) \<and>
      (\<not> bundledOutput (getCompilerOptions (program state)) \<longrightarrow>
         (\<exists>cache. semanticDiagnosticsPerFile state = Some cache \<and>
            map_of cache (path f) = None \<and>
            getSemanticDiagnostics kind ns state (Some f) =
              (case programSemanticDiagnostics (program state) (Some f) of
                 Inl e \<Rightarrow> Inl e
               | Inr ds \<Rightarrow>
                   Inr (ds, state\<lparr>semanticDiagnosticsPerFile :=
                                     Some (setEntry cache (path f) ds)\<rparr>))))) \<and>
   (\<forall>s0 ignore ds f.
      getSemanticDiagnosticsOfNextAffectedFile ns s0 ignore =
        Inr (Some (ds, AffectedFile f), state) \<longrightarrow>
      (\<exists>fs i. affectedFiles state = Some fs \<and> affectedFilesIndex state = Some (Suc i) \<and>
         i < length fs \<and> fs ! i = f) \<and>
      assertSourceFileOkWithoutNextAffectedCall state (Some f) = Inl AssertionFailure \<and>
      getSemanticDiagnostics kind ns state (Some f) = Inl AssertionFailure \<and>
      emit EmitAndSemanticDiagnosticsBuilderProgram ns state (Some f) = Inl AssertionFailure) \<and>
   (assertSourceFileOkWithoutNextAffectedCall state sourceFile = Inr () \<longleftrightarrow>
      sourceFile = None \<or> affectedFiles state = None \<or>
      (\<exists>sf fs. sourceFile = Some sf \<and> affectedFiles state = Some fs \<and>
         ((\<forall>i. affectedFilesIndex state = Some (Suc i) \<and> i < length fs \<longrightarrow> fs ! i \<noteq> sf) \<or>
          (\<exists>cache. semanticDiagnosticsPerFile state = Some cache \<and>
             map_of cache (path sf) = None))))"
proof (intro conjI allI impI)
  fix s0 f
  assume n: "getNextAffectedFile ns s0 = Inr (Some (AffectedFile f), state)"
  then have y: "yieldedState state f" by (rule getNextAffectedFile_yieldedState)
  then show "\<exists>fs i. affectedFiles state = Some fs \<and> affectedFilesIndex state = Some i \<and>
         i < length fs \<and> fs ! i = f"
    by (auto simp: yieldedState_def)
  from y show a: "assertSourceFileOkWithoutNextAffectedCall state (Some f) = Inr ()"
    by (rule yieldedState_assert_passes)
  then show "emit EmitAndSemanticDiagnosticsBuilderProgram ns state (Some f) =
        map_sum id (\<lambda>r. (r, state)) (programEmit (program state) (Some f))"
    by (simp add: emit_def)
  assume nb: "\<not> bundledOutput (getCompilerOptions (program state))"
  from y obtain cache where c: "semanticDiagnosticsPerFile state = Some cache"
    "\<not> has cache (path f)"
    by (auto simp: yieldedState_def)
  then have g: "get cache (path f) = None" "map_of cache (path f) = None"
    by (simp_all add: has_def get_def)
  from a nb c g
  have "getSemanticDiagnostics kind ns state (Some f) =
              (case programSemanticDiagnostics (program state) (Some f) of
                 Inl e \<Rightarrow> Inl e
               | Inr ds \<Rightarrow>
                   Inr (ds, state\<lparr>semanticDiagnosticsPerFile :=
                                     Some (setEntry cache (path f) ds)\<rparr>))"
    by (simp add: getSemanticDiagnostics_def getSemanticDiagnosticsOfFile_def)
  with c g show "\<exists>cache. semanticDiagnosticsPerFile state = Some cache \<and>
            map_of cache (path f) = None \<and>
            getSemanticDiagnostics kind ns state (Some f) =
              (case programSemanticDiagnostics (program state) (Some f) of
                 Inl e \<Rightarrow> Inl e
               | Inr ds \<Rightarrow>
                   Inr (ds, state\<lparr>semanticDiagnosticsPerFile :=
                                     Some (setEntry cache (path f) ds)\<rparr>))"
    by simp
next
  fix s0 ignore ds f
  assume "getSemanticDiagnosticsOfNextAffectedFile ns s0 ignore =
        Inr (Some (ds, AffectedFile f), state)"
  from getSemanticDiagnosticsOfNextAffectedFile_committed[OF this]
  obtain fs i cache where c: "affectedFiles state = Some fs" "affectedFilesIndex state = Some (Suc i)"
    "i < length fs" "fs ! i = f" "semanticDiagnosticsPerFile state = Some cache"
    "has cache (path f)"
    by blast
  then show "\<exists>fs i. affectedFiles state = Some fs \<and> affectedFilesIndex state = Some (Suc i) \<and>
         i < length fs \<and> fs ! i = f"
    by simp
  from c show a: "assertSourceFileOkWithoutNextAffectedCall state (Some f) = Inl AssertionFailure"
    by (simp add: assertSourceFileOkWithoutNextAffectedCall_def elementBeforeIndex_def)
  from assert_fails_calls_fail[OF a]
  show "getSemanticDiagnostics kind ns state (Some f) = Inl AssertionFailure"
    and "emit EmitAndSemanticDiagnosticsBuilderProgram ns state (Some f) = Inl AssertionFailure"
    by simp_all
next
  show "assertSourceFileOkWithoutNextAffectedCall state sourceFile = Inr () \<longleftrightarrow>
      sourceFile = None \<or> affectedFiles state = None \<or>
      (\<exists>sf fs. sourceFile = Some sf \<and> affectedFiles state = Some fs \<and>
         ((\<forall>i. affectedFilesIndex state = Some (Suc i) \<and> i < length fs \<longrightarrow> fs ! i \<noteq> sf) \<or>
          (\<exists>cache. semanticDiagnosticsPerFile state = Some cache \<and>
             map_of cache (path sf) = None)))"
    by (rule assert_passes_iff)
qed

theorem assertion_reads_element_before_cursor_witness:
  "getNextAffectedFile exNS exIdle = Inr (Some (AffectedFile exFileA), exYielded) \<and>
   assertSourceFileOkWithoutNextAffectedCall exYielded (Some exFileA) = Inr () \<and>
   getSemanticDiagnostics SemanticDiagnosticsBuilderProgram exNS exYielded (Some exFileA) =
     Inr ([''error''], exYielded\<lparr>semanticDiagnosticsPerFile := Some [(''a'', [''error''])]\<rparr>) \<and>
   getSemanticDiagnosticsOfNextAffectedFile exNS exIdle None =
     Inr (Some ([''error''], AffectedFile exFileA), exCommitted) \<and>
   affectedFiles exCommitted = Some [exFileA, exFileB] \<and>
   affectedFilesIndex exCommitted = Some 1 \<and>
   assertSourceFileOkWithoutNextAffectedCall exCommitted (Some exFileA) = Inl AssertionFailure \<and>
   getSemanticDiagnostics SemanticDiagnosticsBuilderProgram exNS exCommitted (Some exFileA) =
     Inl AssertionFailure \<and>
   emit EmitAndSemanticDiagnosticsBuilderProgram exNS exCommitted (Some exFileA) =
     Inl AssertionFailure"
proof -
  note t1 = assertion_reads_element_before_cursor
      [of exNS exYielded SemanticDiagnosticsBuilderProgram "Some exFileA"]
  note t2 = assertion_reads_element_before_cursor
      [of exNS exCommitted SemanticDiagnosticsBuilderProgram "Some exFileA"]
  from t1 ex_next
  have a: "assertSourceFileOkWithoutNextAffectedCall exYielded (Some exFileA) = Inr ()"
    by blast
  have "getSemanticDiagnostics SemanticDiagnosticsBuilderProgram exNS exYielded (Some exFileA) =
     Inr ([''error''], exYielded\<lparr>semanticDiagnosticsPerFile := Some [(''a'', [''error''])]\<rparr>)"
    by (simp add: assertSourceFileOkWithoutNextAffectedCall_def getSemanticDiagnostics_def
        getSemanticDiagnosticsOfFile_def exYielded_def exIdle_def
        elementBeforeIndex_def ex_defs has_def get_def setEntry_def bundledOutput_def truthy_def)
  moreover from t2 ex_diagnostics_of_next
  have "assertSourceFileOkWithoutNextAffectedCall exCommitted (Some exFileA) = Inl AssertionFailure"
    "getSemanticDiagnostics SemanticDiagnosticsBuilderProgram exNS exCommitted (Some exFileA) =
     Inl AssertionFailure"
    "emit EmitAndSemanticDiagnosticsBuilderProgram exNS exCommitted (Some exFileA) =
     Inl AssertionFailure"
    by blast+
  moreover have "affectedFiles exCommitted = Some [exFileA, exFileB]"
    "affectedFilesIndex exCommitted = Some 1"
    by (simp_all add: exCommitted_def exYielded_def exIdle_def)
  ultimately show ?thesis using a ex_next ex_diagnostics_of_next by blast
qed

lemma nextUnseen_None_iff:
  "fst (nextUnseen fs seen i) = None \<longleftrightarrow> list_all (\<lambda>f. has seen (path f)) (drop i fs)"
proof (induction fs seen i rule: nextUnseen.induct)
  case (1 fs seen i)
  show ?case
  proof (cases "i < length fs")
    case False
    then show ?thesis by (subst nextUnseen.simps) simp
  next
    case True
    then have d: "drop i fs = fs ! i # drop (Suc i) fs"
      by (simp add: Cons_nth_drop_Suc)
    show ?thesis
    proof (cases "has seen (path (fs ! i))")
      case h: True
      then have eq: "setEntry seen (path (fs ! i)) () = seen" by (simp add: setEntry_unit_has)
      from "1.IH"[OF True] h eq
      have "fst (nextUnseen fs seen (i + 1)) = None \<longleftrightarrow>
              list_all (\<lambda>f. has seen (path f)) (drop (i + 1) fs)"
        by simp
      with True h eq d show ?thesis
        by (subst nextUnseen.simps) simp
    next
      case False
      with True d show ?thesis by (subst nextUnseen.simps) simp
    qed
  qed
qed

lemma startBatch_fileInfos: "startBatch ns s k = Inr s' \<Longrightarrow> fileInfos s' = fileInfos s"
  by (auto simp: startBatch_def Let_def split: sum.splits option.splits prod.splits)

lemma iterateBatch_Some_fileInfos:
  "iterateBatch s fs = Inr (Some f, s1) \<Longrightarrow> fileInfos s1 = fileInfos s"
  by (drule iterateBatch_Some) auto

lemma iterateBatch_Some_not_exhausted:
  assumes "affectedFiles s = Some fs" "iterateBatch s fs = Inr (Some f, s1)"
  shows "\<not> batchExhausted s"
proof -
  from assms(2) obtain i seen where i: "affectedFilesIndex s = Some i" "i < length fs"
    and seen: "seenAffectedFiles s = Some seen"
    by (auto simp: iterateBatch_def split: option.splits if_splits)
  with assms(2) have "fst (nextUnseen fs seen i) \<noteq> None"
    by (auto simp: iterateBatch_def split: option.splits prod.splits)
  with assms(1) i seen show ?thesis
    by (simp add: batchExhausted_def nextUnseen_None_iff)
qed

lemma iterateBatch_None_exhausted:
  assumes "affectedFiles s = Some fs" "iterateBatch s fs = Inr (None, s1)"
  shows "batchExhausted s \<and>
         (\<exists>sigs. currentAffectedFilesSignatures s = Some sigs \<and>
            fileInfos s1 = updateSignaturesFromCache (fileInfos s) sigs)"
proof (cases "affectedFilesIndex s")
  case None
  with assms show ?thesis
    by (auto simp: iterateBatch_def completeBatch_def batchExhausted_def Let_def split: option.splits)
next
  case (Some i)
  show ?thesis
  proof (cases "i < length fs")
    case False
    with Some assms show ?thesis
      by (auto simp: iterateBatch_def completeBatch_def batchExhausted_def Let_def split: option.splits)
  next
    case True
    with Some assms(2) obtain seen where seen: "seenAffectedFiles s = Some seen"
      by (auto simp: iterateBatch_def split: option.splits)
    obtain r seen' where nu: "nextUnseen fs seen i = (r, seen')" by (cases "nextUnseen fs seen i")
    with Some True seen assms(2) have r: "r = None"
      by (auto simp: iterateBatch_def split: option.splits)
    with nu have "list_all (\<lambda>f. has seen (path f)) (drop i fs)"
      using nextUnseen_None_iff[of fs seen i] by simp
    with assms(1) Some seen have "batchExhausted s" by (simp add: batchExhausted_def)
    moreover from Some True seen nu r assms(2)
    have "\<exists>sigs. currentAffectedFilesSignatures s = Some sigs \<and>
            fileInfos s1 = updateSignaturesFromCache (fileInfos s) sigs"
      by (auto simp: iterateBatch_def completeBatch_def Let_def split: option.splits)
    ultimately show ?thesis by simp
  qed
qed

lemma whileBody_fileInfos:
  assumes "whileBody ns s = Inr x"
  shows "fileInfos (case x of Inl (r, t) \<Rightarrow> t | Inr t \<Rightarrow> t) = fileInfos s \<or>
         (batchExhausted s \<and>
          (\<exists>sigs. currentAffectedFilesSignatures s = Some sigs \<and>
             fileInfos (case x of Inl (r, t) \<Rightarrow> t | Inr t \<Rightarrow> t) =
               updateSignaturesFromCache (fileInfos s) sigs))"
proof (cases x)
  case (Inl rt)
  obtain r t where rt: "rt = (r, t)" by (cases rt)
  from assms[unfolded Inl rt] show ?thesis
  proof (cases rule: whileBody_return_cases)
    case (yields fs f)
    then show ?thesis by (simp add: Inl rt iterateBatch_Some_fileInfos)
  next
    case idle
    then show ?thesis by (simp add: Inl rt)
  next
    case (drained fs)
    with iterateBatch_None_exhausted[OF drained(1,2)] show ?thesis by (simp add: Inl rt)
  qed
next
  case (Inr t)
  from assms[unfolded Inr] obtain s1 k u rest where
    s1: "(case affectedFiles s of None \<Rightarrow> Inr (None, s) | Some fs \<Rightarrow> iterateBatch s fs) = Inr (None, s1)"
    and sb: "startBatch ns s1 k = Inr t"
    by (rule whileBody_continue)
  note f = startBatch_fileInfos[OF sb]
  show ?thesis
  proof (cases "affectedFiles s")
    case None
    with s1 f show ?thesis by (simp add: Inr)
  next
    case (Some fs)
    with s1 have "iterateBatch s fs = Inr (None, s1)" by simp
    from iterateBatch_None_exhausted[OF Some this] f show ?thesis by (simp add: Inr)
  qed
qed

lemma getNextAffectedFile_fileInfos_changed:
  assumes "getNextAffectedFile ns s = Inr (r, s')"
  shows "fileInfos s' \<noteq> fileInfos s \<longrightarrow> completesBatch ns s"
  using assms
proof (induction rule: getNextAffectedFile_result_induct)
  case (return s)
  from whileBody_fileInfos[OF return] show ?case
    by (auto intro: completesBatch.here)
next
  case (again s t)
  from whileBody_fileInfos[OF again(1)]
  have "fileInfos t = fileInfos s \<or> batchExhausted s" by auto
  then show ?case
  proof
    assume "fileInfos t = fileInfos s"
    with again(3) have "fileInfos s' \<noteq> fileInfos s \<longrightarrow> completesBatch ns t" by simp
    with again(1) show ?thesis by (auto intro: completesBatch.later)
  next
    assume "batchExhausted s"
    then show ?thesis by (simp add: completesBatch.here)
  qed
qed

lemma getNextAffectedFile_mid_batch:
  assumes "getNextAffectedFile ns s = Inr (r, s')" "affectedFiles s \<noteq> None" "\<not> batchExhausted s"
  shows "fileInfos s' = fileInfos s"
proof -
  have "\<not> completesBatch ns s"
  proof
    assume "completesBatch ns s"
    then show False
    proof cases
      case here
      with assms(3) show False by simp
    next
      case (later t)
      from later(1) obtain s1 where
        "(case affectedFiles s of None \<Rightarrow> Inr (None, s) | Some fs \<Rightarrow> iterateBatch s fs) = Inr (None, s1)"
        by (rule whileBody_continue)
      with assms(2) obtain fs where "affectedFiles s = Some fs" "iterateBatch s fs = Inr (None, s1)"
        by auto
      from iterateBatch_None_exhausted[OF this] assms(3) show False by simp
    qed
  qed
  with getNextAffectedFile_fileInfos_changed[OF assms(1)] show ?thesis by auto
qed

text \<open>
  C6. \<open>fileInfos\<close>, and so every signature in it, is left as it is by \<open>doneWithAffectedFile\<close>
  and by every call of \<open>getNextAffectedFile\<close> on a batch in progress whose cursor has not
  passed the end. One pass of the loop of \<open>getNextAffectedFile\<close> changes \<open>fileInfos\<close> only
  when the cursor has passed the end of the batch, and then to the flush of the pending
  signatures; a call changes it only if one of its passes completes a batch.
\<close>

theorem signatures_flushed_only_at_batch_completion:
  "(doneWithAffectedFile s a = Inr s' \<longrightarrow> fileInfos s' = fileInfos s) \<and>
   (getNextAffectedFile ns s = Inr (r, s') \<and> affectedFiles s \<noteq> None \<and> \<not> batchExhausted s \<longrightarrow>
      fileInfos s' = fileInfos s \<and> (\<forall>p. map_option signature (get (fileInfos s') p) =
                                         map_option signature (get (fileInfos s) p))) \<and>
   (getNextAffectedFile ns s = Inr (r, s') \<and> fileInfos s' \<noteq> fileInfos s \<longrightarrow> completesBatch ns s) \<and>
   (whileBody ns s = Inr x \<longrightarrow>
      fileInfos (case x of Inl (r, t) \<Rightarrow> t | Inr t \<Rightarrow> t) = fileInfos s \<or>
      (batchExhausted s \<and>
       (\<exists>sigs. currentAffectedFilesSignatures s = Some sigs \<and>
          fileInfos (case x of Inl (r, t) \<Rightarrow> t | Inr t \<Rightarrow> t) =
            updateSignaturesFromCache (fileInfos s) sigs)))"
proof (intro conjI impI)
  assume "doneWithAffectedFile s a = Inr s'"
  then show "fileInfos s' = fileInfos s"
    by (auto simp: doneWithAffectedFile_def split: Affected.splits option.splits)
next
  assume a: "getNextAffectedFile ns s = Inr (r, s') \<and> affectedFiles s \<noteq> None \<and> \<not> batchExhausted s"
  then show f: "fileInfos s' = fileInfos s" by (auto intro: getNextAffectedFile_mid_batch)
  then show "\<forall>p. map_option signature (get (fileInfos s') p) =
                  map_option signature (get (fileInfos s) p)" by simp
next
  assume "getNextAffectedFile ns s = Inr (r, s') \<and> fileInfos s' \<noteq> fileInfos s"
  then show "completesBatch ns s" using getNextAffectedFile_fileInfos_changed by blast
next
  assume "whileBody ns s = Inr x"
  then show "fileInfos (case x of Inl (r, t) \<Rightarrow> t | Inr t \<Rightarrow> t) = fileInfos s \<or>
      (batchExhausted s \<and>
       (\<exists>sigs. currentAffectedFilesSignatures s = Some sigs \<and>
          fileInfos (case x of Inl (r, t) \<Rightarrow> t | Inr t \<Rightarrow> t) =
            updateSignaturesFromCache (fileInfos s) sigs))"
    by (rule whileBody_fileInfos)
qed

lemma ex_next_bothDone: "getNextAffectedFile exNS exBothDone = Inr (None, exDrained)"
  by (simp add: getNextAffectedFile.simps exBothDone_def exYielded_def exIdle_def exDrained_def
      ex_defs iterator_defs)

theorem signatures_flushed_only_at_batch_completion_witness:
  "getNextAffectedFile exNS exBothDone = Inr (None, exDrained) \<and>
   fileInfos exDrained \<noteq> fileInfos exBothDone \<and>
   batchExhausted exBothDone \<and> completesBatch exNS exBothDone \<and>
   getNextAffectedFile exNS exCached = Inr (Some (AffectedFile exFileA), exEvicted) \<and>
   affectedFiles exCached \<noteq> None \<and> \<not> batchExhausted exCached \<and>
   fileInfos exEvicted = fileInfos exCached"
proof -
  have "fileInfos exDrained \<noteq> fileInfos exBothDone" "batchExhausted exBothDone"
    "affectedFiles exCached \<noteq> None" "\<not> batchExhausted exCached"
    by (simp_all add: exDrained_def exBothDone_def exCached_def exYielded_def exIdle_def
        batchExhausted_def ex_defs has_def)
  with signatures_flushed_only_at_batch_completion
         [of exBothDone "WholeProgram" exDrained exNS None "Inl (None, exDrained)"]
       signatures_flushed_only_at_batch_completion
         [of exCached "WholeProgram" exEvicted exNS "Some (AffectedFile exFileA)" "Inl (None, exDrained)"]
       ex_next_bothDone ex_next_cached
  show ?thesis by blast
qed

text \<open>The operations of the facade lead from a state of a builder to states of a builder.\<close>

lemma drainAffected_reachable:
  assumes "drainAffected ns s = Inr s'"
  shows "\<forall>y H. reachable ns facade s y H \<longrightarrow> (\<exists>H'. reachable ns facade s' None H')"
  using assms
proof (induction rule: drainAffected_result_induct)
  case (finished s)
  then show ?case by (blast intro: reachable.next_affected)
next
  case (round s a s1 s2)
  show ?case
  proof (intro allI impI)
    fix y H
    assume "reachable ns facade s y H"
    from reachable.done_with[OF reachable.next_affected[OF this round(1)] round(2)] round(4)
    show "\<exists>H'. reachable ns facade s' None H'" by blast
  qed
qed

lemma diagnosticsOfFiles_reachable:
  assumes "diagnosticsOfFiles s files acc = Inr (ds, s')" "reachable ns True s y H"
  shows "reachable ns True s' y H"
  using assms
proof (induction files arbitrary: s acc)
  case Nil
  then show ?case by simp
next
  case (Cons f files)
  from Cons.prems(1) obtain d s1 where
    g: "getSemanticDiagnosticsOfFile s f = Inr (d, s1)"
    and r: "diagnosticsOfFiles s1 files (addRange acc (Some d)) = Inr (ds, s')"
    by (auto split: sum.splits)
  from reachable.diagnostics[OF TrueI Cons.prems(2) g] Cons.IH[OF r] show ?case by simp
qed

lemma getSemanticDiagnostics_reachable:
  assumes "getSemanticDiagnostics kind ns s sourceFile = Inr (ds, s')" "reachable ns True s y H"
  shows "\<exists>y' H'. reachable ns True s' y' H'"
proof (cases "bundledOutput (getCompilerOptions (program s))")
  case True
  with assms show ?thesis
    by (auto simp: getSemanticDiagnostics_def split: sum.splits if_splits)
next
  case False
  show ?thesis
  proof (cases sourceFile)
    case (Some sf)
    with False assms(1) have "getSemanticDiagnosticsOfFile s sf = Inr (ds, s')"
      by (auto simp: getSemanticDiagnostics_def split: sum.splits)
    from reachable.diagnostics[OF TrueI assms(2) this] show ?thesis by blast
  next
    case None
    with False assms(1) obtain s1 where
      d: "(if kind = SemanticDiagnosticsBuilderProgram then drainAffected ns s else Inr s) = Inr s1"
      and f: "diagnosticsOfFiles s1 (getSourceFiles (program s1)) [] = Inr (ds, s')"
      by (auto simp: getSemanticDiagnostics_def split: sum.splits)
    from d assms(2) drainAffected_reachable[of ns s s1 True]
    obtain y1 H1 where "reachable ns True s1 y1 H1"
      by (auto split: if_splits)
    from diagnosticsOfFiles_reachable[OF f this] show ?thesis by blast
  qed
qed

lemma toAffectedFileResult_reachable:
  assumes "toAffectedFileResult s result a = Inr (r, s')" "reachable ns facade s (Some a) H"
  shows "reachable ns facade s' None H"
proof -
  from assms(1) have "doneWithAffectedFile s a = Inr s'"
    by (auto simp: toAffectedFileResult_def)
  from reachable.done_with[OF assms(2) this] show ?thesis .
qed

lemma getSemanticDiagnosticsOfNextAffectedFile_reachable:
  assumes "getSemanticDiagnosticsOfNextAffectedFile ns s ignore = Inr (r, s')"
    and "reachable ns True s y H"
  shows "\<exists>y' H'. reachable ns True s' y' H'"
proof -
  have "getSemanticDiagnosticsOfNextAffectedFile n s ignore = Inr (r, s') \<Longrightarrow> n = ns \<Longrightarrow>
          reachable ns True s y H \<Longrightarrow> \<exists>y' H'. reachable ns True s' y' H'" for n
  proof (induction n s ignore arbitrary: y H rule: getSemanticDiagnosticsOfNextAffectedFile.induct)
    case (1 n state ignoreSourceFile)
    from "1.prems"(1) obtain a s1 where nx: "getNextAffectedFile ns state = Inr (a, s1)"
      by (subst (asm) getSemanticDiagnosticsOfNextAffectedFile.simps)
        (auto simp: "1.prems"(2) split: sum.splits)
    note r1 = reachable.next_affected[OF "1.prems"(3) nx]
    show ?case
    proof (cases a)
      case None
      with "1.prems"(1,2) nx have "s' = s1"
        by (subst (asm) getSemanticDiagnosticsOfNextAffectedFile.simps) simp
      with r1 show ?thesis by blast
    next
      case (Some af)
      show ?thesis
      proof (cases af)
        case WholeProgram
        with "1.prems"(1,2) nx Some obtain ds where
          "toAffectedFileResult s1 ds WholeProgram = Inr (r, s')"
          by (subst (asm) getSemanticDiagnosticsOfNextAffectedFile.simps)
            (auto split: sum.splits)
        from toAffectedFileResult_reachable[OF this] r1 Some WholeProgram
        show ?thesis by blast
      next
        case (AffectedFile f)
        show ?thesis
        proof (cases "case ignoreSourceFile of None \<Rightarrow> False | Some ignore \<Rightarrow> ignore f")
          case True
          with "1.prems"(1,2) nx Some AffectedFile obtain s2 where
            d: "doneWithAffectedFile s1 (AffectedFile f) = Inr s2"
            and rec: "getSemanticDiagnosticsOfNextAffectedFile ns s2 ignoreSourceFile = Inr (r, s')"
            by (subst (asm) getSemanticDiagnosticsOfNextAffectedFile.simps)
              (auto split: sum.splits)
          from r1 Some AffectedFile d have r2: "reachable ns True s2 None (H \<union> batchPaths s1)"
            by (auto intro: reachable.done_with)
          from "1.prems"(2) nx Some AffectedFile True d rec r2 "1.IH" show ?thesis
            by fastforce
        next
          case False
          with "1.prems"(1,2) nx Some AffectedFile obtain ds s2 where
            g: "getSemanticDiagnosticsOfFile s1 f = Inr (ds, s2)"
            and t: "toAffectedFileResult s2 ds (AffectedFile f) = Inr (r, s')"
            by (subst (asm) getSemanticDiagnosticsOfNextAffectedFile.simps)
              (auto split: sum.splits)
          from reachable.diagnostics[OF TrueI r1 g] Some AffectedFile
          have "reachable ns True s2 (Some (AffectedFile f)) (H \<union> batchPaths s1)" by simp
          from toAffectedFileResult_reachable[OF t this] show ?thesis by blast
        qed
      qed
    qed
  qed
  with assms show ?thesis by blast
qed

lemma emitNextAffectedFile_reachable:
  assumes "emitNextAffectedFile ns s = Inr (r, s')" "reachable ns facade s y H"
  shows "\<exists>H'. reachable ns facade s' None H'"
proof -
  from assms(1) obtain a s1 where nx: "getNextAffectedFile ns s = Inr (a, s1)"
    by (auto simp: emitNextAffectedFile_def split: sum.splits)
  note r1 = reachable.next_affected[OF assms(2) nx]
  show ?thesis
  proof (cases a)
    case None
    with assms(1) nx r1 show ?thesis
      by (auto simp: emitNextAffectedFile_def)
  next
    case (Some af)
    with assms(1) nx obtain result where "toAffectedFileResult s1 result af = Inr (r, s')"
      by (auto simp: emitNextAffectedFile_def split: sum.splits)
    from toAffectedFileResult_reachable[OF this] r1 Some show ?thesis by blast
  qed
qed

lemma emitAffectedFiles_reachable:
  assumes "emitAffectedFiles ns s acc = Inr (r, s')" "reachable ns facade s y H"
  shows "\<exists>H'. reachable ns facade s' None H'"
proof -
  have "emitAffectedFiles n s acc = Inr (r, s') \<Longrightarrow> n = ns \<Longrightarrow> reachable ns facade s y H \<Longrightarrow>
          \<exists>H'. reachable ns facade s' None H'" for n
  proof (induction n s acc arbitrary: y H rule: emitAffectedFiles.induct)
    case (1 n state acc)
    from "1.prems"(1) obtain x s1 where e: "emitNextAffectedFile ns state = Inr (x, s1)"
      by (subst (asm) emitAffectedFiles.simps) (auto simp: "1.prems"(2) split: sum.splits)
    from emitNextAffectedFile_reachable[OF e "1.prems"(3)]
    obtain H1 where r1: "reachable ns facade s1 None H1" by blast
    show ?case
    proof (cases x)
      case None
      with "1.prems"(1,2) e have "s' = s1"
        by (subst (asm) emitAffectedFiles.simps) simp
      with r1 show ?thesis by blast
    next
      case (Some ra)
      obtain result a where ra: "ra = (result, a)" by (cases ra)
      with "1.prems"(1,2) e Some
      have "emitAffectedFiles ns s1 (mergeEmitResult acc result) = Inr (r, s')"
        by (subst (asm) emitAffectedFiles.simps) simp
      with "1.prems"(2) e Some ra r1 "1.IH" show ?thesis by fastforce
    qed
  qed
  with assms show ?thesis by blast
qed

lemma emit_reachable:
  assumes "emit kind ns s target = Inr (r, s')" "reachable ns facade s y H"
  shows "\<exists>y' H'. reachable ns facade s' y' H'"
proof (cases "kind = EmitAndSemanticDiagnosticsBuilderProgram \<and> target = None")
  case True
  with assms(1) obtain acc where "emitAffectedFiles ns s acc = Inr (r, s')"
    by (auto simp: emit_def split: sum.splits)
  from emitAffectedFiles_reachable[OF this assms(2)] show ?thesis by blast
next
  case False
  with assms(1) have "s' = s"
    by (auto simp: emit_def split: sum.splits option.splits if_splits)
  with assms(2) show ?thesis by blast
qed

lemma fold_diffFile_cache_None:
  "snd (fold (diffFile reused st canCopy) infos (changed, None)) = None"
proof (induction infos arbitrary: changed)
  case Nil
  then show ?case by simp
next
  case (Cons e infos)
  have "snd (diffFile reused st canCopy e (changed, None)) = None"
    by (cases e) (simp add: diffFile_def split: option.splits)
  then obtain changed' where "diffFile reused st canCopy e (changed, None) = (changed', None)"
    by (cases "diffFile reused st canCopy e (changed, None)") simp
  with Cons[of changed'] show ?case by simp
qed

lemma whileBody_program:
  assumes "whileBody ns s = Inr x"
  shows "program (case x of Inl (r, t) \<Rightarrow> t | Inr t \<Rightarrow> t) = program s"
  using assms
  by (auto simp: whileBody_def iterateBatch_def completeBatch_def startBatch_def Let_def
      split: sum.splits option.splits list.splits if_splits prod.splits)

lemma getNextAffectedFile_program:
  assumes "getNextAffectedFile ns s = Inr (r, s')"
  shows "program s' = program s"
  using assms
proof (induction rule: getNextAffectedFile_result_induct)
  case (return s)
  from whileBody_program[OF return] show ?case by simp
next
  case (again s t)
  from whileBody_program[OF again(1)] again(3) show ?case by simp
qed

lemma bundledIdle_next:
  assumes "bundledOutput (getCompilerOptions (program s))" "bundledIdle s"
  shows "getNextAffectedFile ns s =
           Inr (if changedFilesSet s = [] then None else Some WholeProgram, s)"
proof -
  from assms have "whileBody ns s =
      Inr (Inl (if changedFilesSet s = [] then None else Some WholeProgram, s))"
    by (auto simp: whileBody_def bundledIdle_def split: list.splits)
  then show ?thesis by (rule getNextAffectedFile_return)
qed

lemma reachable_bundled:
  assumes "reachable ns facade s y H"
  shows "bundledOutput (getCompilerOptions (program s)) \<longrightarrow>
         bundledIdle s \<and> (\<forall>f. y \<noteq> Some (AffectedFile f))"
  using assms
proof (induction rule: reachable.induct)
  case (created newProgram oldState s)
  from createBuilderProgramState_Inr[OF created(1)] show ?case
    by (auto simp: bundledIdle_def fold_diffFile_cache_None)
next
  case (next_affected s y H r s')
  show ?case
  proof
    assume b: "bundledOutput (getCompilerOptions (program s'))"
    with getNextAffectedFile_program[OF next_affected(2)]
    have b0: "bundledOutput (getCompilerOptions (program s))" by simp
    with next_affected(3) have i: "bundledIdle s" by simp
    from bundledIdle_next[OF b0 i, of ns] next_affected(2) i
    show "bundledIdle s' \<and> (\<forall>f. r \<noteq> Some (AffectedFile f))"
      by (auto split: if_splits)
  qed
next
  case (done_with s a H s')
  then show ?case
    by (auto simp: doneWithAffectedFile_def bundledIdle_def split: Affected.splits option.splits)
next
  case (diagnostics s y H f ds s')
  then show ?case
    by (auto simp: getSemanticDiagnosticsOfFile_def bundledIdle_def split: option.splits sum.splits)
qed

text \<open>
  C5. In every state of a builder whose compiler options bundle the output (\<^verbatim>\<open>outFile\<close> or
  \<^verbatim>\<open>out\<close>), \<open>getNextAffectedFile\<close> returns the program itself when \<open>changedFilesSet\<close> is not
  empty and \<^verbatim>\<open>undefined\<close> when it is empty, without a change of the state, and
  \<open>doneWithAffectedFile\<close> on the program empties \<open>changedFilesSet\<close>.
\<close>

theorem bundled_output_whole_program:
  assumes "reachable ns facade s y H"
    and "bundledOutput (getCompilerOptions (program s))"
  shows "getNextAffectedFile ns s =
           Inr (if changedFilesSet s = [] then None else Some WholeProgram, s) \<and>
         (\<exists>s'. doneWithAffectedFile s WholeProgram = Inr s' \<and> changedFilesSet s' = [])"
proof -
  from reachable_bundled[OF assms(1)] assms(2) have "bundledIdle s" by simp
  from bundledIdle_next[OF assms(2) this]
  show ?thesis by (simp add: doneWithAffectedFile_def)
qed

lemma ex_create_bundled: "createBuilderProgramState exNS exBundledProgram None = Inr exBundled"
  by (simp add: createBuilderProgramState_def exBundledProgram_def exBundled_def exIdle_def ex_defs
      Let_def bundledOutput_def truthy_def diffFile_def fileIsChanged_def setEntry_def)

lemma ex_reachable_bundled: "reachable exNS True exBundled None {}"
  by (rule reachable.created[OF ex_create_bundled]) (simp add: exBundled_def exIdle_def)

lemma ex_bundledOutput: "bundledOutput (getCompilerOptions (program exBundled))"
  by (simp add: exBundled_def exBundledProgram_def exProgram_def bundledOutput_def truthy_def)

theorem bundled_output_whole_program_witness:
  "reachable exNS True exBundled None {} \<and>
   bundledOutput (getCompilerOptions (program exBundled)) \<and>
   getNextAffectedFile exNS exBundled = Inr (Some WholeProgram, exBundled) \<and>
   doneWithAffectedFile exBundled WholeProgram = Inr (exBundled\<lparr>changedFilesSet := []\<rparr>) \<and>
   getNextAffectedFile exNS (exBundled\<lparr>changedFilesSet := []\<rparr>) =
     Inr (None, exBundled\<lparr>changedFilesSet := []\<rparr>)"
proof -
  note t = bundled_output_whole_program[OF ex_reachable_bundled ex_bundledOutput]
  have "changedFilesSet exBundled \<noteq> []"
    by (simp add: exBundled_def exIdle_def)
  with t have n: "getNextAffectedFile exNS exBundled = Inr (Some WholeProgram, exBundled)"
    by simp
  have d: "doneWithAffectedFile exBundled WholeProgram = Inr (exBundled\<lparr>changedFilesSet := []\<rparr>)"
    by (simp add: doneWithAffectedFile_def)
  note r1 = reachable.next_affected[OF ex_reachable_bundled n]
  note r2 = reachable.done_with[OF r1 d]
  have "bundledOutput (getCompilerOptions (program (exBundled\<lparr>changedFilesSet := []\<rparr>)))"
    using ex_bundledOutput by simp
  from bundled_output_whole_program[OF r2 this]
  have "getNextAffectedFile exNS (exBundled\<lparr>changedFilesSet := []\<rparr>) =
          Inr (None, exBundled\<lparr>changedFilesSet := []\<rparr>)"
    by simp
  with ex_reachable_bundled ex_bundledOutput n d show ?thesis by simp
qed

lemma get_Some_has: "get m k = Some v \<Longrightarrow> has m k"
  by (simp add: get_def has_def)

lemma iterateBatch_None_cache:
  "iterateBatch s fs = Inr (None, s1) \<Longrightarrow>
     semanticDiagnosticsPerFile s1 = semanticDiagnosticsPerFile s"
  by (auto simp: iterateBatch_def completeBatch_def Let_def
      split: option.splits if_splits prod.splits sum.splits)

lemma startBatch_cache:
  "startBatch ns s k = Inr s' \<Longrightarrow> cachedPath s' p \<Longrightarrow> cachedPath s p"
  by (auto simp: startBatch_def Let_def cachedPath_def split: sum.splits option.splits prod.splits)

lemma batch_phase_shrinks:
  assumes "(case affectedFiles s of None \<Rightarrow> Inr (None, s) | Some fs \<Rightarrow> iterateBatch s fs) = Inr (r, s1)"
  shows "(cachedPath s1 p \<longrightarrow> cachedPath s p) \<and>
         (has (changedFilesSet s1) p \<longrightarrow> has (changedFilesSet s) p)"
proof (cases "affectedFiles s")
  case None
  with assms show ?thesis by simp
next
  case (Some fs)
  with assms have ib: "iterateBatch s fs = Inr (r, s1)" by simp
  show ?thesis
  proof (cases r)
    case None
    from iterateBatch_None_changed(1)[OF ib[unfolded None]] iterateBatch_None_cache[OF ib[unfolded None]]
    show ?thesis by (auto simp: cachedPath_def split: option.splits)
  next
    case (Some f)
    from iterateBatch_Some[OF ib[unfolded Some]] show ?thesis
      by (auto simp: cachedPath_def)
  qed
qed

lemma whileBody_shrinks:
  assumes "whileBody ns s = Inr x"
  shows "(cachedPath (case x of Inl (r, t) \<Rightarrow> t | Inr t \<Rightarrow> t) p \<longrightarrow> cachedPath s p) \<and>
         (has (changedFilesSet (case x of Inl (r, t) \<Rightarrow> t | Inr t \<Rightarrow> t)) p \<longrightarrow>
            has (changedFilesSet s) p)"
proof (cases x)
  case (Inl rt)
  obtain r t where rt: "rt = (r, t)" by (cases rt)
  from assms[unfolded Inl rt] obtain r' where
    "(case affectedFiles s of None \<Rightarrow> Inr (None, s) | Some fs \<Rightarrow> iterateBatch s fs) = Inr (r', t)"
    by (auto simp: whileBody_def split: sum.splits option.splits list.splits if_splits prod.splits)
  from batch_phase_shrinks[OF this, of p] show ?thesis by (simp add: Inl rt)
next
  case (Inr t)
  from assms[unfolded Inr] obtain s1 k u rest where
    s1: "(case affectedFiles s of None \<Rightarrow> Inr (None, s) | Some fs \<Rightarrow> iterateBatch s fs) = Inr (None, s1)"
    and sb: "startBatch ns s1 k = Inr t"
    by (rule whileBody_continue)
  from batch_phase_shrinks[OF s1, of p] startBatch_cache[OF sb, of p] startBatch_props(1)[OF sb]
  show ?thesis by (auto simp: Inr)
qed

lemma getNextAffectedFile_shrinks:
  assumes "getNextAffectedFile ns s = Inr (r, s')"
  shows "(cachedPath s' p \<longrightarrow> cachedPath s p) \<and>
         (has (changedFilesSet s') p \<longrightarrow> has (changedFilesSet s) p)"
  using assms
proof (induction rule: getNextAffectedFile_result_induct)
  case (return s)
  from whileBody_shrinks[OF return, of p] show ?case by simp
next
  case (again s t)
  from whileBody_shrinks[OF again(1), of p] again(3) show ?case by simp
qed

lemma fold_diffFile_cached:
  assumes "case snd (fold (diffFile reused st canCopy) infos (changed, cache)) of
             None \<Rightarrow> False | Some c \<Rightarrow> has c p"
  shows "(case cache of None \<Rightarrow> False | Some c \<Rightarrow> has c p) \<or>
         (\<exists>info old oldCache.
            (p, info) \<in> set infos \<and> \<not> fileIsChanged reused st p info \<and> canCopy \<and>
            reused = Some old \<and> semanticDiagnosticsPerFile old = Some oldCache \<and> has oldCache p)"
  using assms
proof (induction infos arbitrary: changed cache)
  case Nil
  then show ?case by simp
next
  case (Cons e infos)
  obtain q info where e: "e = (q, info)" by (cases e)
  obtain changed' cache' where d: "diffFile reused st canCopy e (changed, cache) = (changed', cache')"
    by (cases "diffFile reused st canCopy e (changed, cache)")
  from Cons.prems d
  have "case snd (fold (diffFile reused st canCopy) infos (changed', cache')) of
          None \<Rightarrow> False | Some c \<Rightarrow> has c p"
    by simp
  from Cons.IH[OF this] consider
    (now) "case cache' of None \<Rightarrow> False | Some c \<Rightarrow> has c p"
    | (rest) "\<exists>info old oldCache.
            (p, info) \<in> set infos \<and> \<not> fileIsChanged reused st p info \<and> canCopy \<and>
            reused = Some old \<and> semanticDiagnosticsPerFile old = Some oldCache \<and> has oldCache p"
    by blast
  then show ?case
  proof cases
    case now
    with d have "(case cache of None \<Rightarrow> False | Some c \<Rightarrow> has c p) \<or>
        (p = q \<and> \<not> fileIsChanged reused st q info \<and> canCopy \<and>
         (\<exists>old oldCache. reused = Some old \<and> semanticDiagnosticsPerFile old = Some oldCache \<and>
            has oldCache q))"
      by (auto simp: diffFile_def e dest: get_Some_has
          split: if_splits option.splits Option.bind_splits)
    then show ?thesis by (auto simp: e)
  next
    case rest
    then show ?thesis by auto
  qed
qed

lemma createBuilderProgramState_pure:
  assumes "createBuilderProgramState ns newProgram oldState = Inr s"
    and "distinct (map fst (fileInfos s))"
    and "cachedPath s p"
  shows "\<not> has (changedFilesSet s) p"
proof
  assume ch: "has (changedFilesSet s) p"
  define base where "base = create ns newProgram (map_option BuilderState.truncate oldState)"
  define reused where "reused =
    (if canReuseOldState ns (referencedMap base) (map_option BuilderState.truncate oldState)
     then oldState else None)"
  define cache0 :: "Diagnostic list Map option" where
    "cache0 = (if \<not> bundledOutput (getCompilerOptions newProgram) then Some [] else None)"
  define canCopy where "canCopy = (Option.bind reused semanticDiagnosticsPerFile \<noteq> None \<and> cache0 \<noteq> None)"
  define changed0 where
    "changed0 = (case reused of None \<Rightarrow> [] | Some old \<Rightarrow> copyEntries (changedFilesSet old) [])"
  note c = createBuilderProgramState_Inr[OF assms(1), folded base_def, folded reused_def,
      folded cache0_def, folded canCopy_def, folded changed0_def]
  have c0: "\<not> (case cache0 of None \<Rightarrow> False | Some c \<Rightarrow> has c p)"
    by (simp add: cache0_def)
  from assms(3) have "case snd (fold (diffFile reused base canCopy) (fileInfos base) (changed0, cache0)) of
      None \<Rightarrow> False | Some c \<Rightarrow> has c p"
    by (simp add: cachedPath_def c(4))
  from fold_diffFile_cached[OF this] c0 obtain info old oldCache where
    i: "(p, info) \<in> set (fileInfos base)" "\<not> fileIsChanged reused base p info" "canCopy"
      "reused = Some old" "semanticDiagnosticsPerFile old = Some oldCache" "has oldCache p"
    by blast
  from ch have "has changed0 p \<or> (\<exists>info'. (p, info') \<in> set (fileInfos base) \<and>
      fileIsChanged reused base p info')"
    by (simp add: c(3) fold_diffFile_changed)
  then show False
  proof
    assume "has changed0 p"
    with i(4) have "has (changedFilesSet old) p" by (simp add: changed0_def)
    moreover from c(11)[OF i(4)] i(3,5)
    have "\<not> forEachKey (changedFilesSet old) (\<lambda>p. has oldCache p)"
      by (simp add: oldStateSane_def)
    ultimately show False using i(6) by (auto simp: forEachKey_iff)
  next
    assume "\<exists>info'. (p, info') \<in> set (fileInfos base) \<and> fileIsChanged reused base p info'"
    then obtain info' where i': "(p, info') \<in> set (fileInfos base)" "fileIsChanged reused base p info'"
      by blast
    from assms(2) have "distinct (map fst (fileInfos base))" by (simp add: c(1))
    from eq_key_imp_eq_value[OF this i(1) i'(1)] i(2) i'(2) show False by simp
  qed
qed

lemma getSemanticDiagnosticsOfFile_fill:
  assumes "getSemanticDiagnosticsOfFile s f = Inr (ds, s')"
  shows "changedFilesSet s' = changedFilesSet s"
    and "cachedPath s' p \<Longrightarrow> cachedPath s p \<or> p = path f"
  using assms
  by (auto simp: getSemanticDiagnosticsOfFile_def cachedPath_def
      split: option.splits sum.splits)

lemma getSemanticDiagnosticsOfNextAffectedFile_pure:
  assumes "getSemanticDiagnosticsOfNextAffectedFile ns s ignore = Inr (r, s')"
    and "\<forall>p. cachedPath s p \<longrightarrow> \<not> has (changedFilesSet s) p"
    and "case r of Some (ds, AffectedFile f) \<Rightarrow> map_of (changedFilesSet s') (path f) = None
         | _ \<Rightarrow> True"
  shows "\<forall>p. cachedPath s' p \<longrightarrow> \<not> has (changedFilesSet s') p"
proof -
  have "getSemanticDiagnosticsOfNextAffectedFile n s ignore = Inr (r, s') \<Longrightarrow> n = ns \<Longrightarrow>
          \<forall>p. cachedPath s p \<longrightarrow> \<not> has (changedFilesSet s) p \<Longrightarrow>
          \<forall>p. cachedPath s' p \<longrightarrow> \<not> has (changedFilesSet s') p" for n
  proof (induction n s ignore rule: getSemanticDiagnosticsOfNextAffectedFile.induct)
    case (1 n state ignoreSourceFile)
    from "1.prems"(1,2) obtain r0 state1 where nx: "getNextAffectedFile ns state = Inr (r0, state1)"
      by (subst (asm) getSemanticDiagnosticsOfNextAffectedFile.simps)
         (auto split: sum.splits prod.splits)
    have p1: "\<forall>p. cachedPath state1 p \<longrightarrow> \<not> has (changedFilesSet state1) p"
    proof (intro allI impI)
      fix p
      assume "cachedPath state1 p"
      with getNextAffectedFile_shrinks[OF nx, of p] "1.prems"(3)
      show "\<not> has (changedFilesSet state1) p" by blast
    qed
    show ?case
    proof (cases r0)
      case None
      with "1.prems"(1,2) nx have "s' = state1"
        by (subst (asm) getSemanticDiagnosticsOfNextAffectedFile.simps) simp
      with p1 show ?thesis by simp
    next
      case (Some a)
      show ?thesis
      proof (cases a)
        case WholeProgram
        with "1.prems"(1,2) nx Some have "changedFilesSet s' = []"
          by (subst (asm) getSemanticDiagnosticsOfNextAffectedFile.simps)
             (auto simp: toAffectedFileResult_def doneWithAffectedFile_def split: sum.splits)
        then show ?thesis by simp
      next
        case (AffectedFile g)
        show ?thesis
        proof (cases "case ignoreSourceFile of None \<Rightarrow> False | Some ignore \<Rightarrow> ignore g")
          case True
          with "1.prems"(1,2) nx Some AffectedFile obtain state2 where
            d: "doneWithAffectedFile state1 (AffectedFile g) = Inr state2" and
            rec: "getSemanticDiagnosticsOfNextAffectedFile ns state2 ignoreSourceFile = Inr (r, s')"
            by (subst (asm) getSemanticDiagnosticsOfNextAffectedFile.simps)
               (auto split: sum.splits)
          from d p1 have p2: "\<forall>p. cachedPath state2 p \<longrightarrow> \<not> has (changedFilesSet state2) p"
            by (auto simp: doneWithAffectedFile_def cachedPath_def split: option.splits)
          from nx Some AffectedFile "1.prems"(2)
          have nx': "getNextAffectedFile n state = Inr (Some (AffectedFile g), state1)" by simp
          from rec "1.prems"(2)
          have rec': "getSemanticDiagnosticsOfNextAffectedFile n state2 ignoreSourceFile = Inr (r, s')"
            by simp
          from "1.IH"[OF nx' refl refl refl True d rec' "1.prems"(2) p2] show ?thesis .
        next
          case False
          with "1.prems"(1,2) nx Some AffectedFile obtain ds state2 where
            c: "getSemanticDiagnosticsOfFile state1 g = Inr (ds, state2)" and
            d: "doneWithAffectedFile state2 (AffectedFile g) = Inr s'" and
            r: "r = Some (ds, AffectedFile g)"
            by (subst (asm) getSemanticDiagnosticsOfNextAffectedFile.simps)
               (auto simp: toAffectedFileResult_def split: sum.splits)
          from d have e: "changedFilesSet s' = changedFilesSet state2"
            "semanticDiagnosticsPerFile s' = semanticDiagnosticsPerFile state2"
            by (auto simp: doneWithAffectedFile_def split: option.splits)
          from assms(3) r have g: "\<not> has (changedFilesSet s') (path g)"
            by (simp add: has_def)
          show ?thesis
          proof (intro allI impI)
            fix p
            assume "cachedPath s' p"
            with e have "cachedPath state2 p" by (simp add: cachedPath_def)
            from getSemanticDiagnosticsOfFile_fill(2)[OF c this]
            show "\<not> has (changedFilesSet s') p"
            proof
              assume "cachedPath state1 p"
              with p1 e getSemanticDiagnosticsOfFile_fill(1)[OF c] show ?thesis by simp
            next
              assume "p = path g"
              with g show ?thesis by simp
            qed
          qed
        qed
      qed
    qed
  qed
  with assms(1,2) show ?thesis by blast
qed

lemma reachableAsAssumed_pure:
  assumes "reachableAsAssumed ns s y"
  shows "\<forall>p. cachedPath s p \<longrightarrow>
           \<not> has (changedFilesSet s) p \<and> (\<forall>f. y = Some (AffectedFile f) \<longrightarrow> path f \<noteq> p)"
  using assms
proof (induction rule: reachableAsAssumed.induct)
  case (created newProgram oldState s)
  then show ?case by (auto dest: createBuilderProgramState_pure)
next
  case (next_affected s y r s')
  show ?case
  proof (intro allI impI conjI)
    fix p
    assume c: "cachedPath s' p"
    with getNextAffectedFile_shrinks[OF next_affected(2), of p] next_affected(3)
    show "\<not> has (changedFilesSet s') p" by blast
    fix f
    assume "r = Some (AffectedFile f)"
    with next_affected(2) have "yieldedState s' f"
      by (simp add: getNextAffectedFile_yieldedState)
    with c show "path f \<noteq> p" by (auto simp: yieldedState_def cachedPath_def)
  qed
next
  case (done_with s a s')
  then show ?case
    by (auto simp: doneWithAffectedFile_def cachedPath_def split: Affected.splits option.splits)
next
  case (diagnostics s y f ds s')
  show ?case
  proof (intro allI impI conjI)
    fix p
    assume c: "cachedPath s' p"
    from getSemanticDiagnosticsOfFile_fill(2)[OF diagnostics(4) c]
    consider "cachedPath s p" | "p = path f" by blast
    then show "\<not> has (changedFilesSet s') p"
    proof cases
      case 1
      with diagnostics(5) getSemanticDiagnosticsOfFile_fill(1)[OF diagnostics(4)]
      show ?thesis by simp
    next
      case 2
      with diagnostics(2) getSemanticDiagnosticsOfFile_fill(1)[OF diagnostics(4)]
      show ?thesis by (simp add: has_def)
    qed
    fix g
    assume y: "y = Some (AffectedFile g)"
    from getSemanticDiagnosticsOfFile_fill(2)[OF diagnostics(4) c]
    consider "cachedPath s p" | "p = path f" by blast
    then show "path g \<noteq> p"
    proof cases
      case 1
      with diagnostics(5) y show ?thesis by simp
    next
      case 2
      with diagnostics(3) y show ?thesis by simp
    qed
  qed
next
  case (diagnostics_of_next s y ignoreSourceFile r s')
  from diagnostics_of_next(4) have "\<forall>p. cachedPath s p \<longrightarrow> \<not> has (changedFilesSet s) p"
    by blast
  from getSemanticDiagnosticsOfNextAffectedFile_pure[OF diagnostics_of_next(2) this
      diagnostics_of_next(3)]
  show ?case by simp
qed

lemma getNextAffectedFile_root_evicted:
  assumes "getNextAffectedFile ns s = Inr (Some (AffectedFile f), s')"
  shows "(\<exists>fs. affectedFiles s = Some fs \<and> iterateBatch s fs = Inr (Some f, s')) \<or>
         (\<exists>k. currentChangedFilePath s' = Some k \<and> \<not> cachedPath s' k)"
  using assms
proof (induction rule: getNextAffectedFile_result_induct)
  case (return s)
  then show ?case by (simp add: whileBody_file)
next
  case (again s t)
  from again(3) show ?case
  proof
    assume "\<exists>fs. affectedFiles t = Some fs \<and> iterateBatch t fs = Inr (Some f, s')"
    then obtain fs where ib: "iterateBatch t fs = Inr (Some f, s')" by blast
    from again(1) obtain s1 k u rest where sb: "startBatch ns s1 k = Inr t"
      by (rule whileBody_continue)
    then have t: "currentChangedFilePath t = Some k" "\<not> cachedPath t k"
      by (auto simp: startBatch_def Let_def cachedPath_def
          split: sum.splits option.splits prod.splits)
    from iterateBatch_Some[OF ib] t
    have "currentChangedFilePath s' = Some k \<and> \<not> cachedPath s' k"
      by (auto simp: cachedPath_def)
    then show ?thesis by blast
  next
    assume "\<exists>k. currentChangedFilePath s' = Some k \<and> \<not> cachedPath s' k"
    then show ?thesis by blast
  qed
qed

lemma drainAffected_assumed:
  assumes "drainAffected ns s = Inr s'"
  shows "changedFilesSet s' = [] \<and> (\<forall>y. reachableAsAssumed ns s y \<longrightarrow> reachableAsAssumed ns s' None)"
  using assms
proof (induction rule: drainAffected_result_induct)
  case (finished s)
  from getNextAffectedFile_None[OF finished] reachableAsAssumed.next_affected[OF _ finished]
  show ?case by blast
next
  case (round s a s1 s2)
  show ?case
  proof (intro conjI allI impI)
    from round(4) show "changedFilesSet s' = []" by simp
    fix y
    assume "reachableAsAssumed ns s y"
    from reachableAsAssumed.done_with[OF reachableAsAssumed.next_affected[OF this round(1)] round(2)]
      round(4)
    show "reachableAsAssumed ns s' None" by blast
  qed
qed

lemma diagnosticsOfFiles_assumed:
  assumes "diagnosticsOfFiles s files acc = Inr (ds, s')"
    and "reachableAsAssumed ns s None" and "changedFilesSet s = []"
  shows "reachableAsAssumed ns s' None"
  using assms
proof (induction files arbitrary: s acc)
  case Nil
  then show ?case by simp
next
  case (Cons f files)
  from Cons.prems(1) obtain d s1 where
    g: "getSemanticDiagnosticsOfFile s f = Inr (d, s1)"
    and r: "diagnosticsOfFiles s1 files (addRange acc (Some d)) = Inr (ds, s')"
    by (auto split: sum.splits)
  from Cons.prems(3) have "map_of (changedFilesSet s) (path f) = None" by simp
  from reachableAsAssumed.diagnostics[OF Cons.prems(2) this _ g]
  have "reachableAsAssumed ns s1 None" by simp
  moreover from getSemanticDiagnosticsOfFile_fill(1)[OF g] Cons.prems(3)
  have "changedFilesSet s1 = []" by simp
  ultimately show ?case using Cons.IH[OF r] by simp
qed

lemma getSemanticDiagnostics_assumed:
  assumes "getSemanticDiagnostics SemanticDiagnosticsBuilderProgram ns s None = Inr (ds, s')"
    and "reachableAsAssumed ns s y"
  shows "\<exists>y'. reachableAsAssumed ns s' y'"
proof (cases "bundledOutput (getCompilerOptions (program s))")
  case True
  with assms(1) have "s' = s"
    by (auto simp: getSemanticDiagnostics_def assertSourceFileOkWithoutNextAffectedCall_def
        split: if_splits sum.splits)
  with assms(2) show ?thesis by blast
next
  case False
  with assms(1) obtain s1 where d: "drainAffected ns s = Inr s1"
    and f: "diagnosticsOfFiles s1 (getSourceFiles (program s1)) [] = Inr (ds, s')"
    by (auto simp: getSemanticDiagnostics_def assertSourceFileOkWithoutNextAffectedCall_def
        split: sum.splits)
  from drainAffected_assumed[OF d] assms(2)
  have "reachableAsAssumed ns s1 None" "changedFilesSet s1 = []" by blast+
  from diagnosticsOfFiles_assumed[OF f this] show ?thesis by blast
qed

text \<open>
  What is left out of the states above: \<open>getSemanticDiagnosticsOfNextAffectedFile\<close> caches the
  diagnostics of the file it returns (lines 362-366); when the file is the changed file of
  the batch, its path stays in \<open>changedFilesSet\<close> until the batch is completed (line 145), and
  the state is one that \<open>createBuilderProgramState\<close> refuses as an old state (line 74).
\<close>

lemma ex_next_api_caches_changed_file:
  "getSemanticDiagnosticsOfNextAffectedFile exNS exIdle None =
     Inr (Some ([''error''], AffectedFile exFileA), exCommitted) \<and>
   map_of (changedFilesSet exCommitted) ''a'' = Some () \<and>
   semanticDiagnosticsPerFile exCommitted = Some [(''a'', [''error''])] \<and>
   createBuilderProgramState exNS (exProgram\<lparr>programOid := 1\<rparr>) (Some exCommitted) =
     Inl AssertionFailure"
proof -
  have "map_of (changedFilesSet exCommitted) ''a'' = Some ()"
    "semanticDiagnosticsPerFile exCommitted = Some [(''a'', [''error''])]"
    by (simp_all add: exCommitted_def exYielded_def exIdle_def)
  moreover have "createBuilderProgramState exNS (exProgram\<lparr>programOid := 1\<rparr>) (Some exCommitted) =
     Inl AssertionFailure"
    by (simp add: exCommitted_def exYielded_def exIdle_def ex_defs constructor_defs)
  ultimately show ?thesis using ex_diagnostics_of_next by simp
qed

text \<open>
  C3 (as amended). In every state that follows a freshly constructed state by calls (that
  return) of \<open>getNextAffectedFile\<close>, of \<open>doneWithAffectedFile\<close> on the yielded item, of the
  cache fill of the facade (\<open>getSemanticDiagnosticsOfFile\<close>) for a file whose path is not in
  \<open>changedFilesSet\<close> and that is not the file yielded and not committed, and of
  \<open>getSemanticDiagnosticsOfNextAffectedFile\<close> unless it returns a file whose path is in
  \<open>changedFilesSet\<close>, a path with an entry in \<open>semanticDiagnosticsPerFile\<close> (empty or not) is
  not in \<open>changedFilesSet\<close> and is not the path of the file that is yielded and not
  committed. \<open>getSemanticDiagnostics\<close> of the semantic-diagnostics builder without a file is
  such a use: it leads from such a state to such a state. What \<open>getNextAffectedFile\<close> does
  for this, in every state: the file it yields has no entry in the cache, and when it starts
  a batch (no batch was in progress before the call) the changed file of the batch has no
  entry either.
\<close>

theorem cache_purity_under_assumed_use:
  assumes "reachableAsAssumed ns s y"
  shows "(\<forall>p. (\<exists>cache. semanticDiagnosticsPerFile s = Some cache \<and> map_of cache p \<noteq> None) \<longrightarrow>
            map_of (changedFilesSet s) p = None \<and>
            (\<forall>f. y = Some (AffectedFile f) \<longrightarrow> path f \<noteq> p)) \<and>
         (\<forall>ds s'. getSemanticDiagnostics SemanticDiagnosticsBuilderProgram ns s None = Inr (ds, s') \<longrightarrow>
            (\<exists>y'. reachableAsAssumed ns s' y')) \<and>
         (\<forall>t f t'. getNextAffectedFile ns t = Inr (Some (AffectedFile f), t') \<longrightarrow>
            (\<exists>cache. semanticDiagnosticsPerFile t' = Some cache \<and> map_of cache (path f) = None \<and>
               (affectedFiles t = None \<longrightarrow>
                  (\<exists>k. currentChangedFilePath t' = Some k \<and> map_of cache k = None))))"
proof (intro conjI allI impI)
  fix p
  assume "\<exists>cache. semanticDiagnosticsPerFile s = Some cache \<and> map_of cache p \<noteq> None"
  then have c: "cachedPath s p" by (auto simp: cachedPath_def has_def)
  with reachableAsAssumed_pure[OF assms] have "\<not> has (changedFilesSet s) p" by blast
  then show "map_of (changedFilesSet s) p = None"
    unfolding has_def by blast
  fix f
  assume "y = Some (AffectedFile f)"
  with reachableAsAssumed_pure[OF assms] c show "path f \<noteq> p" by simp
next
  fix ds s'
  assume "getSemanticDiagnostics SemanticDiagnosticsBuilderProgram ns s None = Inr (ds, s')"
  from getSemanticDiagnostics_assumed[OF this assms] show "\<exists>y'. reachableAsAssumed ns s' y'" .
next
  fix t f t'
  assume n: "getNextAffectedFile ns t = Inr (Some (AffectedFile f), t')"
  then have "yieldedState t' f" by (rule getNextAffectedFile_yieldedState)
  then obtain cache where c: "semanticDiagnosticsPerFile t' = Some cache"
    "map_of cache (path f) = None"
    by (auto simp: yieldedState_def has_def)
  have "affectedFiles t = None \<longrightarrow>
          (\<exists>k. currentChangedFilePath t' = Some k \<and> map_of cache k = None)"
    using getNextAffectedFile_root_evicted[OF n] c
    by (auto simp: cachedPath_def has_def)
  with c show "\<exists>cache. semanticDiagnosticsPerFile t' = Some cache \<and> map_of cache (path f) = None \<and>
               (affectedFiles t = None \<longrightarrow>
                  (\<exists>k. currentChangedFilePath t' = Some k \<and> map_of cache k = None))"
    by simp
qed

lemma ex_create_from_old: "createBuilderProgramState exNS exProgram (Some exOld) = Inr exFresh"
  by (simp add: exOld_def exFresh_def exIdle_def ex_defs constructor_defs)

lemma ex_next_fresh:
  "getNextAffectedFile exNS exFresh = Inr (Some (AffectedFile exFileA), exFreshYielded)"
  by (simp add: getNextAffectedFile.simps exFresh_def exFreshYielded_def exIdle_def
      ex_defs iterator_defs)

lemma ex_reachable_idle: "reachable exNS facade exIdle None {}"
  by (rule reachable.created[OF ex_create]) (simp add: exIdle_def)

lemma ex_create_from_old_empty:
  "createBuilderProgramState exNS exProgram (Some exOldEmpty) = Inr exFreshEmpty"
  by (simp add: exOldEmpty_def exFreshEmpty_def exOld_def exFresh_def exIdle_def ex_defs
      constructor_defs)

lemma ex_fill_fresh:
  "getSemanticDiagnosticsOfFile exFreshEmpty exFileB = Inr ([''error''], exFilled)"
  by (simp add: getSemanticDiagnosticsOfFile_def exFreshEmpty_def exFilled_def exFresh_def
      exIdle_def ex_defs get_def setEntry_def)

lemma ex_next_filled:
  "getNextAffectedFile exNS exFilled = Inr (Some (AffectedFile exFileA), exFilledYielded)"
  by (simp add: getNextAffectedFile.simps exFilled_def exFilledYielded_def exFreshYielded_def
      exFresh_def exIdle_def ex_defs iterator_defs)

lemma ex_diagnostics_all:
  "getSemanticDiagnostics SemanticDiagnosticsBuilderProgram exNS exFilledYielded None =
     Inr ([''error'', ''error''], exFilledAll)"
proof -
  have "drainAffected exNS exFilledYielded =
          Inr (exFilledAll\<lparr>semanticDiagnosticsPerFile := Some []\<rparr>)"
    by (simp add: drainAffected.simps getNextAffectedFile.simps exFilledYielded_def
        exFreshYielded_def exFresh_def exFilledAll_def exIdle_def ex_defs iterator_defs)
  moreover have "diagnosticsOfFiles (exFilledAll\<lparr>semanticDiagnosticsPerFile := Some []\<rparr>)
          [exFileA, exFileB] [] = Inr ([''error'', ''error''], exFilledAll)"
    by (simp add: getSemanticDiagnosticsOfFile_def exFilledAll_def ex_defs get_def setEntry_def
        addRange_def)
  moreover have "getSourceFiles (program (exFilledAll\<lparr>semanticDiagnosticsPerFile := Some []\<rparr>)) =
          [exFileA, exFileB]"
    "\<not> bundledOutput (getCompilerOptions (program exFilledYielded))"
    by (simp_all add: exFilledAll_def exFilledYielded_def exFreshYielded_def exFresh_def
        exIdle_def exProgram_def bundledOutput_def truthy_def)
  ultimately show ?thesis
    by (simp add: getSemanticDiagnostics_def assertSourceFileOkWithoutNextAffectedCall_def)
qed

lemma ex_done_filled:
  "doneWithAffectedFile exFilledYielded (AffectedFile exFileA) = Inr exFilledCommitted"
  by (simp add: doneWithAffectedFile_def exFilledCommitted_def exFilledYielded_def
      exFreshYielded_def exFresh_def exIdle_def ex_defs setEntry_def)

lemma ex_diagnostics_of_next_filled:
  "getSemanticDiagnosticsOfNextAffectedFile exNS exFilledCommitted None =
     Inr (Some ([''error''], AffectedFile exFileB), exFilledBoth)"
proof -
  have "getNextAffectedFile exNS exFilledCommitted =
          Inr (Some (AffectedFile exFileB),
               exFilledCommitted\<lparr>semanticDiagnosticsPerFile := Some []\<rparr>)"
    by (simp add: getNextAffectedFile.simps exFilledCommitted_def exFilledYielded_def
        exFreshYielded_def exFresh_def exIdle_def ex_defs iterator_defs)
  moreover have "getSemanticDiagnosticsOfFile
          (exFilledCommitted\<lparr>semanticDiagnosticsPerFile := Some []\<rparr>) exFileB =
        Inr ([''error''], exFilledCommitted)"
    by (simp add: getSemanticDiagnosticsOfFile_def exFilledCommitted_def exFilledYielded_def
        exFreshYielded_def exFresh_def exIdle_def ex_defs get_def setEntry_def)
  moreover have "toAffectedFileResult exFilledCommitted [''error''] (AffectedFile exFileB) =
        Inr (Some ([''error''], AffectedFile exFileB), exFilledBoth)"
    by (simp add: toAffectedFileResult_def doneWithAffectedFile_def exFilledBoth_def
        exFilledCommitted_def exFilledYielded_def exFreshYielded_def exFresh_def exIdle_def
        ex_defs setEntry_def)
  ultimately show ?thesis
    by (subst getSemanticDiagnosticsOfNextAffectedFile.simps) simp
qed

theorem cache_purity_under_assumed_use_witness:
  "createBuilderProgramState exNS exProgram (Some exOldEmpty) = Inr exFreshEmpty \<and>
   getSemanticDiagnosticsOfFile exFreshEmpty exFileB = Inr ([''error''], exFilled) \<and>
   getNextAffectedFile exNS exFilled = Inr (Some (AffectedFile exFileA), exFilledYielded) \<and>
   reachableAsAssumed exNS exFilledYielded (Some (AffectedFile exFileA)) \<and>
   semanticDiagnosticsPerFile exFilledYielded = Some [(''b'', [''error''])] \<and>
   changedFilesSet exFilledYielded = [(''a'', ())] \<and>
   currentChangedFilePath exFilledYielded = Some ''a'' \<and>
   map_of (changedFilesSet exFilledYielded) ''b'' = None \<and> path exFileA \<noteq> ''b'' \<and>
   getSemanticDiagnostics SemanticDiagnosticsBuilderProgram exNS exFilledYielded None =
     Inr ([''error'', ''error''], exFilledAll) \<and>
   (\<exists>y'. reachableAsAssumed exNS exFilledAll y') \<and>
   doneWithAffectedFile exFilledYielded (AffectedFile exFileA) = Inr exFilledCommitted \<and>
   getSemanticDiagnosticsOfNextAffectedFile exNS exFilledCommitted None =
     Inr (Some ([''error''], AffectedFile exFileB), exFilledBoth) \<and>
   reachableAsAssumed exNS exFilledBoth None \<and>
   semanticDiagnosticsPerFile exFilledBoth = Some [(''b'', [''error''])] \<and>
   changedFilesSet exFilledBoth = [(''a'', ())] \<and>
   map_of (changedFilesSet exFilledBoth) ''b'' = None"
proof -
  have d: "distinct (map fst (fileInfos exFreshEmpty))"
    "map_of (changedFilesSet exFreshEmpty) (path exFileB) = None"
    by (simp_all add: exFreshEmpty_def exFresh_def exIdle_def exFileB_def)
  note r0 = reachableAsAssumed.created[OF ex_create_from_old_empty d(1)]
  from reachableAsAssumed.diagnostics[OF r0 d(2) _ ex_fill_fresh]
  have r1: "reachableAsAssumed exNS exFilled None" by simp
  note r2 = reachableAsAssumed.next_affected[OF r1 ex_next_filled]
  note r3 = reachableAsAssumed.done_with[OF r2 ex_done_filled]
  have c': "semanticDiagnosticsPerFile exFilledBoth = Some [(''b'', [''error''])]"
    "changedFilesSet exFilledBoth = [(''a'', ())]"
    by (simp_all add: exFilledBoth_def exFilledYielded_def exFreshYielded_def exFresh_def
        exIdle_def)
  from reachableAsAssumed.diagnostics_of_next[OF r3 ex_diagnostics_of_next_filled] c'(2)
  have r4: "reachableAsAssumed exNS exFilledBoth None" by (simp add: exFileB_def)
  note t = cache_purity_under_assumed_use[OF r2]
  note t' = cache_purity_under_assumed_use[OF r4]
  have c: "semanticDiagnosticsPerFile exFilledYielded = Some [(''b'', [''error''])]"
    "changedFilesSet exFilledYielded = [(''a'', ())]"
    "currentChangedFilePath exFilledYielded = Some ''a''"
    by (simp_all add: exFilledYielded_def exFreshYielded_def exFresh_def exIdle_def)
  from t c have "map_of (changedFilesSet exFilledYielded) ''b'' = None \<and> path exFileA \<noteq> ''b''"
    by simp
  moreover from t ex_diagnostics_all have "\<exists>y'. reachableAsAssumed exNS exFilledAll y'"
    by blast
  moreover from t' have "(\<exists>cache. semanticDiagnosticsPerFile exFilledBoth = Some cache \<and>
      map_of cache ''b'' \<noteq> None) \<longrightarrow> map_of (changedFilesSet exFilledBoth) ''b'' = None"
    by blast
  with c'(1) have "map_of (changedFilesSet exFilledBoth) ''b'' = None" by simp
  ultimately show ?thesis
    using ex_create_from_old_empty ex_fill_fresh ex_next_filled r2 c ex_diagnostics_all
      ex_done_filled ex_diagnostics_of_next_filled r4 c'
    by blast
qed

lemma ex_diagnostics_stale:
  "getSemanticDiagnostics EmitAndSemanticDiagnosticsBuilderProgram exNS exIdle (Some exFileA) =
     Inr ([''error''], exStale)"
  by (simp add: getSemanticDiagnostics_def assertSourceFileOkWithoutNextAffectedCall_def
      getSemanticDiagnosticsOfFile_def exStale_def exIdle_def ex_defs bundledOutput_def truthy_def
      get_def setEntry_def)

lemma ex_done_fresh:
  "doneWithAffectedFile exFreshYielded (AffectedFile exFileA) = Inr exFreshCommitted"
  by (simp add: doneWithAffectedFile_def exFreshCommitted_def exFreshYielded_def exFresh_def
      exIdle_def ex_defs setEntry_def)

lemma ex_next_second:
  "getNextAffectedFile exNS exFreshCommitted = Inr (Some (AffectedFile exFileB), exFreshSecond)"
  by (simp add: getNextAffectedFile.simps exFreshSecond_def exFreshCommitted_def
      exFreshYielded_def exFresh_def exIdle_def ex_defs iterator_defs)

lemma ex_diagnostics_second:
  "getSemanticDiagnostics EmitAndSemanticDiagnosticsBuilderProgram exNS exFreshSecond (Some exFileB) =
     Inr ([''error''], exFreshStale)"
  by (simp add: getSemanticDiagnostics_def assertSourceFileOkWithoutNextAffectedCall_def
      getSemanticDiagnosticsOfFile_def elementBeforeIndex_def exFreshStale_def exFreshSecond_def
      exFreshCommitted_def exFreshYielded_def exFresh_def exIdle_def ex_defs bundledOutput_def
      truthy_def get_def setEntry_def)

theorem cache_purity_counterexample:
  "createBuilderProgramState exNS exProgram None = Inr exIdle \<and>
   getSemanticDiagnostics EmitAndSemanticDiagnosticsBuilderProgram exNS exIdle (Some exFileA) =
     Inr ([''error''], exStale) \<and>
   reachable exNS True exStale None {} \<and>
   get (case semanticDiagnosticsPerFile exStale of None \<Rightarrow> [] | Some cache \<Rightarrow> cache) ''a'' =
     Some [''error''] \<and>
   cachedPath exStale ''a'' \<and> has (changedFilesSet exStale) ''a'' \<and>
   createBuilderProgramState exNS exProgram (Some exOld) = Inr exFresh \<and>
   getNextAffectedFile exNS exFresh = Inr (Some (AffectedFile exFileA), exFreshYielded) \<and>
   doneWithAffectedFile exFreshYielded (AffectedFile exFileA) = Inr exFreshCommitted \<and>
   getNextAffectedFile exNS exFreshCommitted = Inr (Some (AffectedFile exFileB), exFreshSecond) \<and>
   getSemanticDiagnostics EmitAndSemanticDiagnosticsBuilderProgram exNS exFreshSecond (Some exFileB) =
     Inr ([''error''], exFreshStale) \<and>
   reachable exNS True exFreshStale (Some (AffectedFile exFileB))
     ({} \<union> batchPaths exFreshYielded \<union> batchPaths exFreshSecond) \<and>
   get (case semanticDiagnosticsPerFile exFreshStale of None \<Rightarrow> [] | Some cache \<Rightarrow> cache) ''b'' =
     Some [''error''] \<and>
   cachedPath exFreshStale (path exFileB) \<and> \<not> has (changedFilesSet exFreshStale) (path exFileB)"
proof -
  have "getSemanticDiagnosticsOfFile exIdle exFileA = Inr ([''error''], exStale)"
    by (simp add: getSemanticDiagnosticsOfFile_def exStale_def exIdle_def ex_defs get_def setEntry_def)
  note r = reachable.diagnostics[OF TrueI ex_reachable_idle this]
  have s: "get (case semanticDiagnosticsPerFile exStale of None \<Rightarrow> [] | Some cache \<Rightarrow> cache) ''a'' =
     Some [''error'']" "cachedPath exStale ''a''" "has (changedFilesSet exStale) ''a''"
    by (simp_all add: exStale_def exIdle_def get_def cachedPath_def has_def)
  have "distinct (map fst (fileInfos exFresh))"
    by (simp add: exFresh_def exIdle_def)
  note q0 = reachable.created[OF ex_create_from_old this, of True]
  note q1 = reachable.next_affected[OF q0 ex_next_fresh]
  note q2 = reachable.done_with[OF q1 ex_done_fresh]
  note q3 = reachable.next_affected[OF q2 ex_next_second]
  have "getSemanticDiagnosticsOfFile exFreshSecond exFileB = Inr ([''error''], exFreshStale)"
    by (simp add: getSemanticDiagnosticsOfFile_def exFreshStale_def exFreshSecond_def
        exFreshCommitted_def exFreshYielded_def exFresh_def exIdle_def ex_defs get_def setEntry_def)
  note q4 = reachable.diagnostics[OF TrueI q3 this]
  have z: "get (case semanticDiagnosticsPerFile exFreshStale of None \<Rightarrow> [] | Some cache \<Rightarrow> cache) ''b'' =
     Some [''error'']" "cachedPath exFreshStale (path exFileB)"
    "\<not> has (changedFilesSet exFreshStale) (path exFileB)"
    by (simp_all add: exFreshStale_def exFreshSecond_def exFreshCommitted_def exFreshYielded_def
        exFresh_def exIdle_def exFileB_def get_def cachedPath_def has_def)
  from ex_create ex_diagnostics_stale r s ex_create_from_old ex_next_fresh ex_done_fresh
    ex_next_second ex_diagnostics_second q4 z
  show ?thesis by blast
qed

lemma keys_setEntry: "fst ` set (setEntry m k v) = insert k (fst ` set m)"
proof -
  have "x \<in> fst ` set (setEntry m k v) \<longleftrightarrow> x \<in> insert k (fst ` set m)" for x
    using has_setEntry[of m k v x] by (simp add: has_iff_keys)
  then show ?thesis by blast
qed

lemma iterateBatch_None_seen:
  assumes "iterateBatch s fs = Inr (None, s1)"
  shows "seenAffectedFiles s1 = seenAffectedFiles s"
proof (cases "\<exists>i seen. affectedFilesIndex s = Some i \<and> i < length fs \<and> seenAffectedFiles s = Some seen")
  case True
  then obtain i seen where i: "affectedFilesIndex s = Some i" "i < length fs"
    "seenAffectedFiles s = Some seen" by blast
  obtain r seen' where nu: "nextUnseen fs seen i = (r, seen')" by (cases "nextUnseen fs seen i")
  with nextUnseen_seen[of fs seen i] have "seen' = seen" by simp
  with assms i nu show ?thesis
    by (auto simp: iterateBatch_def completeBatch_def Let_def split: option.splits)
next
  case False
  with assms show ?thesis
    by (auto simp: iterateBatch_def completeBatch_def Let_def split: option.splits if_splits)
qed

lemma batch_phase_seen:
  assumes "(case affectedFiles s of None \<Rightarrow> Inr (None, s) | Some fs \<Rightarrow> iterateBatch s fs) = Inr (r, s1)"
  shows "seenAffectedFiles s1 = seenAffectedFiles s"
proof (cases "affectedFiles s")
  case None
  with assms show ?thesis by simp
next
  case (Some fs)
  with assms have ib: "iterateBatch s fs = Inr (r, s1)" by simp
  show ?thesis
  proof (cases r)
    case None
    with ib show ?thesis by (simp add: iterateBatch_None_seen)
  next
    case (Some f)
    from iterateBatch_Some[OF ib[unfolded Some]] show ?thesis by auto
  qed
qed

lemma startBatch_seenPaths: "startBatch ns s k = Inr s' \<Longrightarrow> seenPaths s' = seenPaths s"
  by (auto simp: startBatch_def Let_def seenPaths_def split: sum.splits option.splits prod.splits)

lemma whileBody_seenPaths:
  assumes "whileBody ns s = Inr x"
  shows "seenPaths (case x of Inl (r, t) \<Rightarrow> t | Inr t \<Rightarrow> t) = seenPaths s"
proof (cases x)
  case (Inl rt)
  obtain r t where rt: "rt = (r, t)" by (cases rt)
  from assms[unfolded Inl rt] obtain r' where
    "(case affectedFiles s of None \<Rightarrow> Inr (None, s) | Some fs \<Rightarrow> iterateBatch s fs) = Inr (r', t)"
    by (auto simp: whileBody_def split: sum.splits option.splits list.splits if_splits prod.splits)
  from batch_phase_seen[OF this] show ?thesis by (simp add: Inl rt seenPaths_def)
next
  case (Inr t)
  from assms[unfolded Inr] obtain s1 k u rest where
    s1: "(case affectedFiles s of None \<Rightarrow> Inr (None, s) | Some fs \<Rightarrow> iterateBatch s fs) = Inr (None, s1)"
    and sb: "startBatch ns s1 k = Inr t"
    by (rule whileBody_continue)
  from batch_phase_seen[OF s1] startBatch_seenPaths[OF sb] show ?thesis
    by (simp add: Inr seenPaths_def)
qed

lemma getNextAffectedFile_seenPaths:
  assumes "getNextAffectedFile ns s = Inr (r, s')"
  shows "seenPaths s' = seenPaths s"
  using assms
proof (induction rule: getNextAffectedFile_result_induct)
  case (return s)
  from whileBody_seenPaths[OF return] show ?case by simp
next
  case (again s t)
  from whileBody_seenPaths[OF again(1)] again(3) show ?case by simp
qed

lemma reachable_seenPaths:
  assumes "reachable ns facade s y H"
  shows "seenPaths s \<subseteq> H \<and> batchPaths s \<subseteq> H \<and>
         (\<forall>f. y = Some (AffectedFile f) \<longrightarrow> path f \<in> batchPaths s)"
  using assms
proof (induction rule: reachable.induct)
  case (created newProgram oldState s)
  from createBuilderProgramState_Inr[OF created(1)] show ?case
    by (simp add: seenPaths_def batchPaths_def)
next
  case (next_affected s y H r s')
  have "path f \<in> batchPaths s'" if "r = Some (AffectedFile f)" for f
  proof -
    from that next_affected(2) have "yieldedState s' f"
      by (simp add: getNextAffectedFile_yieldedState)
    then show ?thesis by (auto simp: yieldedState_def batchPaths_def)
  qed
  with getNextAffectedFile_seenPaths[OF next_affected(2)] next_affected(3)
  show ?case by auto
next
  case (done_with s a H s')
  show ?case
  proof (cases a)
    case WholeProgram
    with done_with show ?thesis
      by (auto simp: doneWithAffectedFile_def seenPaths_def batchPaths_def)
  next
    case (AffectedFile f)
    with done_with(2) obtain seen where
      "seenAffectedFiles s = Some seen" "seenAffectedFiles s' = Some (setEntry seen (path f) ())"
      "affectedFiles s' = affectedFiles s"
      by (auto simp: doneWithAffectedFile_def split: option.splits)
    then have "seenPaths s' = insert (path f) (seenPaths s)" "batchPaths s' = batchPaths s"
      by (simp_all add: seenPaths_def batchPaths_def keys_setEntry)
    with done_with(3) AffectedFile show ?thesis by auto
  qed
next
  case (diagnostics s y H f ds s')
  from diagnostics(3) have "seenPaths s' = seenPaths s" "batchPaths s' = batchPaths s"
    by (auto simp: getSemanticDiagnosticsOfFile_def seenPaths_def batchPaths_def
        split: option.splits sum.splits)
  with diagnostics(4) show ?case by simp
qed

lemma doneWithAffectedFile_seenPaths:
  assumes "doneWithAffectedFile s a = Inr s'"
  shows "seenPaths s' =
           (case a of AffectedFile f \<Rightarrow> insert (path f) (seenPaths s) | WholeProgram \<Rightarrow> seenPaths s)"
proof (cases a)
  case WholeProgram
  with assms show ?thesis by (auto simp: doneWithAffectedFile_def seenPaths_def)
next
  case (AffectedFile f)
  with assms obtain seen where seen: "seenAffectedFiles s = Some seen"
    and s': "s' = s\<lparr>seenAffectedFiles := Some (setEntry seen (path f) ()),
                     affectedFilesIndex := map_option Suc (affectedFilesIndex s)\<rparr>"
    by (auto simp: doneWithAffectedFile_def split: option.splits)
  show ?thesis unfolding AffectedFile s' seenPaths_def using seen
    by (simp add: keys_setEntry)
qed

lemma getSemanticDiagnosticsOfFile_seenPaths:
  assumes "getSemanticDiagnosticsOfFile s f = Inr (ds, s')"
  shows "seenPaths s' = seenPaths s"
  using assms
  by (auto simp: getSemanticDiagnosticsOfFile_def seenPaths_def split: option.splits sum.splits)

text \<open>
  C8 (as amended). \<open>seenAffectedFiles\<close> is not reset when a batch is completed or started:
  a call of \<open>getNextAffectedFile\<close> that returns leaves the set of its paths as it is,
  \<open>doneWithAffectedFile\<close> on a file adds the path of the file and removes none, and a cache
  fill leaves it as it is. So it holds paths of the batch in progress and of the batches
  before it: in every state of a builder the paths recorded in \<open>seenAffectedFiles\<close> are paths
  of files of the batches so far (the batch in progress included), and the item that is
  yielded and not committed is a file of the batch in progress.
\<close>

theorem seenAffectedFiles_within_all_batches:
  assumes "reachable ns facade s y H"
  shows "(case seenAffectedFiles s of None \<Rightarrow> {} | Some seen \<Rightarrow> fst ` set seen) \<subseteq> H \<and>
         (case affectedFiles s of None \<Rightarrow> {} | Some fs \<Rightarrow> path ` set fs) \<subseteq> H \<and>
         (\<forall>f. y = Some (AffectedFile f) \<longrightarrow>
            (\<exists>fs. affectedFiles s = Some fs \<and> f \<in> set fs)) \<and>
         (\<forall>r s'. getNextAffectedFile ns s = Inr (r, s') \<longrightarrow> seenPaths s' = seenPaths s) \<and>
         (\<forall>f s'. doneWithAffectedFile s (AffectedFile f) = Inr s' \<longrightarrow>
            seenPaths s' = insert (path f) (seenPaths s)) \<and>
         (\<forall>s'. doneWithAffectedFile s WholeProgram = Inr s' \<longrightarrow> seenPaths s' = seenPaths s) \<and>
         (\<forall>f ds s'. getSemanticDiagnosticsOfFile s f = Inr (ds, s') \<longrightarrow> seenPaths s' = seenPaths s) \<and>
         seenPaths s = (case seenAffectedFiles s of None \<Rightarrow> {} | Some seen \<Rightarrow> fst ` set seen)"
proof (intro conjI allI impI)
  note r = reachable_seenPaths[OF assms]
  from r show "(case seenAffectedFiles s of None \<Rightarrow> {} | Some seen \<Rightarrow> fst ` set seen) \<subseteq> H"
    by (simp add: seenPaths_def)
  from r show "(case affectedFiles s of None \<Rightarrow> {} | Some fs \<Rightarrow> path ` set fs) \<subseteq> H"
    by (simp add: batchPaths_def)
  show "\<exists>fs. affectedFiles s = Some fs \<and> f \<in> set fs" if "y = Some (AffectedFile f)" for f
  proof -
    have "reachable ns facade s y H \<Longrightarrow> y = Some (AffectedFile f) \<Longrightarrow>
            \<exists>fs. affectedFiles s = Some fs \<and> f \<in> set fs"
    proof (induction rule: reachable.induct)
      case (created newProgram oldState s)
      then show ?case by simp
    next
      case (next_affected s y H r s')
      then have "yieldedState s' f" by (simp add: getNextAffectedFile_yieldedState)
      then show ?case by (auto simp: yieldedState_def)
    next
      case (done_with s a H s')
      then show ?case by simp
    next
      case (diagnostics s y H g ds s')
      then show ?case
        by (auto simp: getSemanticDiagnosticsOfFile_def split: option.splits sum.splits)
    qed
    with assms that show ?thesis by blast
  qed
next
  fix r s'
  assume "getNextAffectedFile ns s = Inr (r, s')"
  then show "seenPaths s' = seenPaths s" by (rule getNextAffectedFile_seenPaths)
next
  fix f s'
  assume "doneWithAffectedFile s (AffectedFile f) = Inr s'"
  from doneWithAffectedFile_seenPaths[OF this] show "seenPaths s' = insert (path f) (seenPaths s)"
    by simp
next
  fix s'
  assume "doneWithAffectedFile s WholeProgram = Inr s'"
  from doneWithAffectedFile_seenPaths[OF this] show "seenPaths s' = seenPaths s" by simp
next
  fix f ds s'
  assume "getSemanticDiagnosticsOfFile s f = Inr (ds, s')"
  then show "seenPaths s' = seenPaths s" by (rule getSemanticDiagnosticsOfFile_seenPaths)
next
  show "seenPaths s = (case seenAffectedFiles s of None \<Rightarrow> {} | Some seen \<Rightarrow> fst ` set seen)"
    by (simp add: seenPaths_def)
qed

lemma ex_reachable_secondBatch:
  "reachable exNS1 True exSecondBatch (Some (AffectedFile exFileB))
     ({} \<union> batchPaths exFirstBatch \<union> batchPaths exSecondBatch)"
proof -
  have c: "createBuilderProgramState exNS1 exProgram None = Inr exIdle"
    by (simp add: createBuilderProgramState_def exNS1_def exIdle_def ex_defs Let_def
      bundledOutput_def truthy_def diffFile_def fileIsChanged_def setEntry_def)
  have "distinct (map fst (fileInfos exIdle))" by (simp add: exIdle_def)
  note r0 = reachable.created[OF c this, of True]
  have "getNextAffectedFile exNS1 exIdle = Inr (Some (AffectedFile exFileA), exFirstBatch)"
    by (simp add: getNextAffectedFile.simps exNS1_def exFirstBatch_def exIdle_def ex_defs iterator_defs)
  note r1 = reachable.next_affected[OF r0 this]
  have "doneWithAffectedFile exFirstBatch (AffectedFile exFileA) =
          Inr (exFirstBatch\<lparr>seenAffectedFiles := Some [(''a'', ())], affectedFilesIndex := Some 1\<rparr>)"
    by (simp add: doneWithAffectedFile_def exFirstBatch_def exIdle_def ex_defs setEntry_def)
  note r2 = reachable.done_with[OF r1 this]
  have "getNextAffectedFile exNS1
          (exFirstBatch\<lparr>seenAffectedFiles := Some [(''a'', ())], affectedFilesIndex := Some 1\<rparr>) =
        Inr (Some (AffectedFile exFileB), exSecondBatch)"
    by (simp add: getNextAffectedFile.simps exNS1_def exFirstBatch_def exSecondBatch_def exIdle_def
        ex_defs iterator_defs)
  from reachable.next_affected[OF r2 this] show ?thesis .
qed

theorem seenAffectedFiles_within_all_batches_witness:
  "reachable exNS1 True exSecondBatch (Some (AffectedFile exFileB))
     ({} \<union> batchPaths exFirstBatch \<union> batchPaths exSecondBatch) \<and>
   seenAffectedFiles exSecondBatch = Some [(''a'', ())] \<and>
   affectedFiles exSecondBatch = Some [exFileB] \<and>
   {} \<union> batchPaths exFirstBatch \<union> batchPaths exSecondBatch = {''a'', ''b''} \<and>
   doneWithAffectedFile exSecondBatch (AffectedFile exFileB) =
     Inr (exSecondBatch\<lparr>seenAffectedFiles := Some [(''a'', ()), (''b'', ())],
                        affectedFilesIndex := Some 1\<rparr>) \<and>
   seenPaths (exSecondBatch\<lparr>seenAffectedFiles := Some [(''a'', ()), (''b'', ())],
                           affectedFilesIndex := Some 1\<rparr>) = insert (path exFileB) {''a''}"
proof -
  have h: "seenAffectedFiles exSecondBatch = Some [(''a'', ())]"
    "affectedFiles exSecondBatch = Some [exFileB]"
    "{} \<union> batchPaths exFirstBatch \<union> batchPaths exSecondBatch = {''a'', ''b''}"
    by (auto simp: batchPaths_def exSecondBatch_def exFirstBatch_def exIdle_def ex_defs)
  have d: "doneWithAffectedFile exSecondBatch (AffectedFile exFileB) =
     Inr (exSecondBatch\<lparr>seenAffectedFiles := Some [(''a'', ()), (''b'', ())],
                        affectedFilesIndex := Some 1\<rparr>)"
    by (simp add: doneWithAffectedFile_def exSecondBatch_def ex_defs setEntry_def)
  from seenAffectedFiles_within_all_batches[OF ex_reachable_secondBatch] d h(1)
  have "seenPaths (exSecondBatch\<lparr>seenAffectedFiles := Some [(''a'', ()), (''b'', ())],
                           affectedFilesIndex := Some 1\<rparr>) = insert (path exFileB) {''a''}"
    by simp
  with h d ex_reachable_secondBatch show ?thesis by simp
qed

theorem seen_subset_of_current_batch_counterexample:
  "(\<exists>H. reachable exNS1 True exSecondBatch (Some (AffectedFile exFileB)) H) \<and>
   seenAffectedFiles exSecondBatch = Some [(''a'', ())] \<and>
   affectedFiles exSecondBatch = Some [exFileB] \<and>
   \<not> seenPaths exSecondBatch \<subseteq> batchPaths exSecondBatch"
proof -
  have "seenAffectedFiles exSecondBatch = Some [(''a'', ())]"
    "affectedFiles exSecondBatch = Some [exFileB]"
    "\<not> seenPaths exSecondBatch \<subseteq> batchPaths exSecondBatch"
    by (simp_all add: seenPaths_def batchPaths_def exSecondBatch_def ex_defs)
  with ex_reachable_secondBatch show ?thesis by blast
qed

lemma getNextAffectedFileWritingBack_same:
  assumes "sameObservableState s t"
  shows "sameResult (getNextAffectedFile ns s) (getNextAffectedFileWritingBack ns t)"
proof -
  have "n = ns \<Longrightarrow> sameObservableState s t \<Longrightarrow>
          sameResult (getNextAffectedFile n s) (getNextAffectedFileWritingBack n t)" for n
  proof (induction n s arbitrary: t rule: getNextAffectedFile.induct)
    case (1 n state)
    note p = whileBodyWritingBack_same[OF "1.prems"(2), of n]
    show ?case
    proof (cases "whileBody n state")
      case (Inl e)
      with p have "whileBodyWritingBack n t = Inl e"
        by (auto simp: samePass_def split: sum.splits)
      with Inl show ?thesis
        by (subst getNextAffectedFile.simps, subst getNextAffectedFileWritingBack.simps)
          (simp add: sameResult_def)
    next
      case (Inr x)
      show ?thesis
      proof (cases x)
        case (Inl rs)
        obtain r s1 where rs: "rs = (r, s1)" by (cases rs)
        with p Inr Inl obtain t1 where "whileBodyWritingBack n t = Inr (Inl (r, t1))"
          "sameObservableState s1 t1"
          by (auto simp: samePass_def split: sum.splits)
        with Inr Inl rs show ?thesis
          by (subst getNextAffectedFile.simps, subst getNextAffectedFileWritingBack.simps)
            (simp add: sameResult_def)
      next
        case (Inr s1)
        with p \<open>whileBody n state = Inr x\<close> have wb: "whileBodyWritingBack n t = Inr (Inr s1)"
          by (auto simp: samePass_def split: sum.splits)
        from "1.IH"[OF \<open>whileBody n state = Inr x\<close> Inr "1.prems"(1) sameObservableState_refl]
        have "sameResult (getNextAffectedFile n s1) (getNextAffectedFileWritingBack n s1)" .
        with \<open>whileBody n state = Inr x\<close> Inr wb show ?thesis
          by (subst getNextAffectedFile.simps, subst getNextAffectedFileWritingBack.simps) simp
      qed
    qed
  qed
  with assms show ?thesis by simp
qed

lemma doneWithAffectedFile_sameObservableState:
  assumes "sameObservableState s t"
  shows "sameResult (map_sum id (Pair ()) (doneWithAffectedFile s a))
                    (map_sum id (Pair ()) (doneWithAffectedFile t a))"
proof -
  from assms obtain c where t: "t = s\<lparr>affectedFilesIndex := c\<rparr>"
    and c: "affectedFiles s = None \<or> c = affectedFilesIndex s"
    by (rule sameObservableState_cursor)
  show ?thesis
  proof (cases a)
    case WholeProgram
    with c show ?thesis
      by (auto simp: t doneWithAffectedFile_def sameResult_def sameObservableState_def)
  next
    case (AffectedFile f)
    with c show ?thesis
      by (auto simp: t doneWithAffectedFile_def sameResult_def sameObservableState_def
          split: option.splits)
  qed
qed

lemma assertSourceFileOk_sameObservableState:
  assumes "sameObservableState s t"
  shows "assertSourceFileOkWithoutNextAffectedCall t sourceFile =
         assertSourceFileOkWithoutNextAffectedCall s sourceFile"
proof -
  from assms obtain c where t: "t = s\<lparr>affectedFilesIndex := c\<rparr>"
    and c: "affectedFiles s = None \<or> c = affectedFilesIndex s"
    by (rule sameObservableState_cursor)
  from c show ?thesis
    by (auto simp: t assertSourceFileOkWithoutNextAffectedCall_def split: option.splits)
qed

lemma getSemanticDiagnosticsOfFile_sameObservableState:
  assumes "sameObservableState s t"
  shows "sameResult (getSemanticDiagnosticsOfFile s f) (getSemanticDiagnosticsOfFile t f)"
proof -
  from assms obtain c where t: "t = s\<lparr>affectedFilesIndex := c\<rparr>"
    and c: "affectedFiles s = None \<or> c = affectedFilesIndex s"
    by (rule sameObservableState_cursor)
  from c show ?thesis
    by (auto simp: t getSemanticDiagnosticsOfFile_def sameResult_def sameObservableState_def
        split: option.splits sum.splits)
qed

lemma createBuilderProgramState_cursor:
  "createBuilderProgramState ns newProgram (Some (s\<lparr>affectedFilesIndex := c\<rparr>)) =
   createBuilderProgramState ns newProgram (Some s)"
proof -
  have ic: "fileIsChanged (Some (s\<lparr>affectedFilesIndex := c\<rparr>)) st p info =
            fileIsChanged (Some s) st p info" for st p info
    by (simp add: fileIsChanged_def Let_def split: option.splits)
  have df: "diffFile (Some (s\<lparr>affectedFilesIndex := c\<rparr>)) st cc = diffFile (Some s) st cc" for st cc
    by (rule ext, rule ext) (simp add: diffFile_def ic split: prod.splits)
  have sane: "oldStateSane (s\<lparr>affectedFilesIndex := c\<rparr>) cc = oldStateSane s cc" for cc
    by (simp add: oldStateSane_def split: option.splits)
  show ?thesis
    unfolding createBuilderProgramState_def Let_def
    by (simp add: df sane BuilderState.truncate_def)
qed

lemma createBuilderProgramState_sameObservableState:
  assumes "sameObservableState s t"
  shows "createBuilderProgramState ns newProgram (Some t) =
         createBuilderProgramState ns newProgram (Some s)"
proof -
  from assms obtain c where "t = s\<lparr>affectedFilesIndex := c\<rparr>"
    by (rule sameObservableState_cursor)
  then show ?thesis by (simp add: createBuilderProgramState_cursor)
qed

text \<open>
  C9. The source's \<open>getNextAffectedFile\<close> and the form that writes the cursor back return
  the same result on every state: the same error, or the same item with states that are
  equal but, when no batch is in progress, for the value of \<open>affectedFilesIndex\<close>. Such
  states cannot be told apart: on two of them the two forms again return the same, and
  \<open>doneWithAffectedFile\<close>, the assertion of the facade and \<open>getSemanticDiagnosticsOfFile\<close> give
  the same result and again such states, and \<open>createBuilderProgramState\<close> builds the same
  state from either as the old state.
\<close>

theorem getNextAffectedFile_equivalent_to_writing_back:
  assumes "sameObservableState s t"
  shows "sameResult (getNextAffectedFile ns s) (getNextAffectedFileWritingBack ns s) \<and>
         sameResult (getNextAffectedFile ns s) (getNextAffectedFileWritingBack ns t) \<and>
         sameResult (map_sum id (Pair ()) (doneWithAffectedFile s a))
                    (map_sum id (Pair ()) (doneWithAffectedFile t a)) \<and>
         assertSourceFileOkWithoutNextAffectedCall t sourceFile =
           assertSourceFileOkWithoutNextAffectedCall s sourceFile \<and>
         sameResult (getSemanticDiagnosticsOfFile s f) (getSemanticDiagnosticsOfFile t f) \<and>
         createBuilderProgramState ns newProgram (Some t) =
           createBuilderProgramState ns newProgram (Some s)"
  using assms getNextAffectedFileWritingBack_same[OF sameObservableState_refl, of ns s]
    getNextAffectedFileWritingBack_same[OF assms, of ns]
    doneWithAffectedFile_sameObservableState[OF assms, of a]
    assertSourceFileOk_sameObservableState[OF assms, of sourceFile]
    getSemanticDiagnosticsOfFile_sameObservableState[OF assms, of f]
    createBuilderProgramState_sameObservableState[OF assms, of ns newProgram]
  by simp

lemmas writing_back_defs = whileBodyWritingBack_def iterateBatchWritingBack_def advanceCursor.simps

lemma ex_next_writing_back:
  "getNextAffectedFileWritingBack exNS exBothDone =
     Inr (None, exDrained\<lparr>affectedFilesIndex := Some 1\<rparr>)"
  by (simp add: getNextAffectedFileWritingBack.simps exBothDone_def exYielded_def exIdle_def
      exDrained_def ex_defs iterator_defs writing_back_defs)

theorem getNextAffectedFile_equivalent_to_writing_back_witness:
  "getNextAffectedFile exNS exBothDone = Inr (None, exDrained) \<and>
   getNextAffectedFileWritingBack exNS exBothDone =
     Inr (None, exDrained\<lparr>affectedFilesIndex := Some 1\<rparr>) \<and>
   exDrained\<lparr>affectedFilesIndex := Some 1\<rparr> \<noteq> exDrained \<and>
   sameObservableState exDrained (exDrained\<lparr>affectedFilesIndex := Some 1\<rparr>) \<and>
   sameResult (getNextAffectedFile exNS exDrained)
     (getNextAffectedFileWritingBack exNS (exDrained\<lparr>affectedFilesIndex := Some 1\<rparr>))"
proof -
  have o: "sameObservableState exDrained (exDrained\<lparr>affectedFilesIndex := Some 1\<rparr>)"
    by (simp add: sameObservableState_def exDrained_def)
  have "exDrained\<lparr>affectedFilesIndex := Some 1\<rparr> \<noteq> exDrained"
    by (simp add: exDrained_def)
  with getNextAffectedFile_equivalent_to_writing_back[OF o, of exNS] o
    ex_next_bothDone ex_next_writing_back
  show ?thesis by simp
qed

end
